theory Spec2Isabelle
  imports Main "HOL-Library.AList" "HOL-Library.Sublist"
begin

section \<open>Python values and exceptions\<close>

text \<open>
  The observer classes of interfaces/observer.py that carry the phase interface
  (\<open>phase_start\<close>, \<open>phase_end\<close>): \<open>phase_observer\<close> and every class deriving from it or
  from \<open>file_phase_observer\<close>.
\<close>

datatype observer =
    Phase_observer | File_phase_observer | Build_observer | Repo_observer
  | File_build_observer | File_repo_observer

text \<open>
  The Python values the modelled code passes around: \<open>None\<close>, booleans, strings, observer
  objects and other objects, which are opaque and told apart by a name.
\<close>

datatype pyval = PyNone | PyBool bool | PyStr string | PyObserver observer | PyObj string

text \<open>Python truth value, as \<open>if x:\<close> and \<open>not x\<close> test it.\<close>

fun truthy :: "pyval \<Rightarrow> bool" where
  "truthy PyNone = False"
| "truthy (PyBool b) = b"
| "truthy (PyStr s) = (s \<noteq> [])"
| "truthy (PyObserver ob) = True"
| "truthy (PyObj n) = True"

text \<open>
  The exceptions the modelled code raises or lets through. \<open>IOError\<close> carries its errno,
  \<open>StreamClosed\<close> the errno of the error it wraps, \<open>AttributeError\<close> and
  \<open>NotImplementedError\<close> the attribute or stage concerned; \<open>Failure\<close> stands for any other
  error a stage body or capability raises.
\<close>

datatype exception =
    AttributeError string
  | TypeError
  | NotImplementedError string
  | IOError int
  | StreamClosed int
  | ConfigurationError string
  | Failure string

section \<open>Calling a Python function: binding arguments to parameters\<close>

text \<open>
  A parameter is its name and its default value, if it has one. A call passes positional
  arguments and keyword arguments. Every way a call can fail to bind is a \<open>TypeError\<close>:
  too many positional arguments, an unknown keyword, a parameter given twice, and a
  parameter without default left unbound. The implicit \<open>self\<close> is left out on both sides.
\<close>

type_synonym params = "(string \<times> pyval option) list"

fun bind_positional :: "params \<Rightarrow> pyval list \<Rightarrow> exception + (string \<times> pyval) list" where
  "bind_positional ps [] = Inr []"
| "bind_positional [] (a # as) = Inl TypeError"
| "bind_positional (p # ps) (a # as) =
     (case bind_positional ps as of Inl e \<Rightarrow> Inl e | Inr env \<Rightarrow> Inr ((fst p, a) # env))"

fun bind_keywords ::
  "params \<Rightarrow> (string \<times> pyval) list \<Rightarrow> (string \<times> pyval) list \<Rightarrow> exception + (string \<times> pyval) list" where
  "bind_keywords ps env [] = Inr env"
| "bind_keywords ps env (kv # kws) =
     (if fst kv \<notin> set (map fst ps) then Inl TypeError
      else if fst kv \<in> set (map fst env) then Inl TypeError
      else bind_keywords ps (env @ [kv]) kws)"

fun bind_defaults :: "params \<Rightarrow> (string \<times> pyval) list \<Rightarrow> exception + (string \<times> pyval) list" where
  "bind_defaults [] env = Inr env"
| "bind_defaults (p # ps) env =
     (if fst p \<in> set (map fst env) then bind_defaults ps env
      else (case snd p of
              None \<Rightarrow> Inl TypeError
            | Some d \<Rightarrow> bind_defaults ps (env @ [(fst p, d)])))"

definition bind_args ::
  "params \<Rightarrow> pyval list \<Rightarrow> (string \<times> pyval) list \<Rightarrow> exception + (string \<times> pyval) list" where
  "bind_args ps args kwargs =
     (case bind_positional ps args of
        Inl e \<Rightarrow> Inl e
      | Inr env \<Rightarrow>
          (case bind_keywords ps env kwargs of
             Inl e \<Rightarrow> Inl e
           | Inr env' \<Rightarrow> bind_defaults ps env'))"

text \<open>Reading a bound parameter; every parameter is bound once \<open>bind_args\<close> succeeded.\<close>

definition arg :: "(string \<times> pyval) list \<Rightarrow> string \<Rightarrow> pyval" where
  "arg env n = (case map_of env n of Some v \<Rightarrow> v | None \<Rightarrow> PyNone)"

section \<open>Build operations: constructors (operations/format.py)\<close>

text \<open>
  \<open>build_base.__init__(self, domain, observer)\<close>: both parameters are required. The
  instance keeps \<open>domain\<close> and \<open>observer\<close>; subclasses add their package attributes.
\<close>

record build_base =
  domain :: pyval
  observer :: pyval

definition build_base_init ::
  "pyval list \<Rightarrow> (string \<times> pyval) list \<Rightarrow> exception + build_base" where
  "build_base_init args kwargs =
     (case bind_args [(''domain'', None), (''observer'', None)] args kwargs of
        Inl e \<Rightarrow> Inl e
      | Inr env \<Rightarrow> Inr \<lparr>domain = arg env ''domain'', observer = arg env ''observer''\<rparr>)"

text \<open>
  \<open>empty_build_op.__init__(self, pkg, observer=None, clean=False)\<close>, whose body is
  \<open>build_base.__init__(self, observer); self.pkg = pkg\<close>.
\<close>

record empty_build_op = build_base +
  pkg :: pyval

definition empty_build_op_init ::
  "pyval list \<Rightarrow> (string \<times> pyval) list \<Rightarrow> exception + empty_build_op" where
  "empty_build_op_init args kwargs =
     (case bind_args [(''pkg'', None), (''observer'', Some PyNone), (''clean'', Some (PyBool False))]
             args kwargs of
        Inl e \<Rightarrow> Inl e
      | Inr env \<Rightarrow>
          (case build_base_init [arg env ''observer''] [] of
             Inl e \<Rightarrow> Inl e
           | Inr self \<Rightarrow> Inr (build_base.extend self (empty_build_op.fields (arg env ''pkg'')))))"

section \<open>The observer hook (interfaces/observer.py)\<close>

text \<open>The notifications the hook sends to the observer.\<close>

datatype phase_event = Phase_start string | Phase_end string pyval

text \<open>
  A stage method takes the instance and gives back what it returned or raised, the
  instance as it left it, and the notifications it sent itself while it ran.
\<close>

type_synonym 'a stage_method =
  "'a build_base_scheme \<Rightarrow> (exception + pyval) \<times> 'a build_base_scheme \<times> phase_event list"

text \<open>
  \<open>wrap_build_method(phase, method, self, *args, **kwds)\<close>; the extra arguments are part
  of \<open>method\<close>. The result carries the notifications in the order they were sent.
  \<open>self.observer\<close> is read anew for each notification. A value that is no observer has
  no \<open>phase_start\<close>: the source stops in the debugger there and the call of
  \<open>phase_start\<close> that follows raises \<open>AttributeError\<close>; in the \<open>finally\<close> block the same
  failure replaces whatever the method returned or raised.
\<close>

definition wrap_build_method ::
  "string \<Rightarrow> 'a stage_method \<Rightarrow> 'a build_base_scheme \<Rightarrow>
   (exception + pyval) \<times> 'a build_base_scheme \<times> phase_event list" where
  "wrap_build_method phase method self =
     (case observer self of
        PyNone \<Rightarrow> method self
      | PyObserver ob \<Rightarrow>
          (case method self of
             (res, self', evs) \<Rightarrow>
               (let ret = (case res of Inr v \<Rightarrow> v | Inl e \<Rightarrow> PyBool False) in
                case observer self' of
                  PyObserver ob' \<Rightarrow>
                    (case res of
                       Inr v \<Rightarrow> (Inr ret, self', Phase_start phase # evs @ [Phase_end phase ret])
                     | Inl e \<Rightarrow> (Inl e, self', Phase_start phase # evs @ [Phase_end phase ret]))
                | _ \<Rightarrow> (Inl (AttributeError ''phase_end''), self', Phase_start phase # evs)))
      | _ \<Rightarrow> (Inl (AttributeError ''phase_start''), self, []))"

text \<open>Concrete stage methods used to exercise the hook.\<close>

definition failing_stage :: "unit stage_method" where
  "failing_stage self = (Inl (Failure ''compile''), self, [])"

definition observed_build :: build_base where
  "observed_build = \<lparr>domain = PyObj ''domain'', observer = PyObserver File_build_observer\<rparr>"

section \<open>Build operations: the fetch stage (operations/format.py)\<close>

text \<open>
  A fetchable carries a \<open>filename\<close> and a \<open>uri\<close>; the source only tests the truth value
  of \<open>x.uri\<close>, so the uri is a list of locations that is false exactly when empty.
\<close>

record fetchable =
  filename :: string
  uri :: "string list"

text \<open>
  The two capabilities \<open>_raw_fetch\<close> calls into: \<open>self.fetcher(x)\<close> and \<open>self.nofetch()\<close>.
  Each call is written to a trace so that theorems can speak about which calls were made.
\<close>

datatype fetch_event = Fetcher_call fetchable | Nofetch_call

text \<open>
  The instance attributes \<open>_raw_fetch\<close> touches. \<open>files\<close> is \<open>None\<close> while the attribute is
  not yet in \<open>self.__dict__\<close>; afterwards it is the dict from local path to fetchable,
  kept as an association list (\<open>self.files[fp] = x\<close> is \<open>AList.update\<close>).
\<close>

record fetch_op =
  files :: "(string \<times> fetchable) list option"
  fetchables :: "fetchable list"

text \<open>\<open>set(x.filename for x in self.files.values())\<close>\<close>

definition gotten_of :: "(string \<times> fetchable) list \<Rightarrow> string set" where
  "gotten_of fs = set (map (\<lambda>kv. filename (snd kv)) fs)"

text \<open>
  The \<open>for x in self.fetchables\<close> loop. The result is the return value, the dict and the
  calls made, in order.
\<close>

fun fetch_loop ::
  "(fetchable \<Rightarrow> string option) \<Rightarrow> fetchable list \<Rightarrow> string set \<Rightarrow>
   (string \<times> fetchable) list \<Rightarrow> bool \<times> (string \<times> fetchable) list \<times> fetch_event list" where
  "fetch_loop fetcher [] gotten fs = (True, fs, [])"
| "fetch_loop fetcher (x # xs) gotten fs =
     (if filename x \<in> gotten then fetch_loop fetcher xs gotten fs
      else (case fetcher x of
              None \<Rightarrow>
                (if uri x \<noteq> [] then (False, fs, [Fetcher_call x])
                 else (False, fs, [Fetcher_call x, Nofetch_call]))
            | Some fp \<Rightarrow>
                (case fetch_loop fetcher xs (insert (filename x) gotten) (AList.update fp x fs) of
                   (r, fs', ev) \<Rightarrow> (r, fs', Fetcher_call x # ev))))"

text \<open>
  \<open>if not "files" in self.__dict__: self.files = {}\<close>, read as the dict the loop
  starts from.
\<close>

definition current_files :: "fetch_op \<Rightarrow> (string \<times> fetchable) list" where
  "current_files self = (case files self of None \<Rightarrow> [] | Some f \<Rightarrow> f)"

definition raw_fetch ::
  "(fetchable \<Rightarrow> string option) \<Rightarrow> fetch_op \<Rightarrow> bool \<times> fetch_op \<times> fetch_event list" where
  "raw_fetch fetcher self =
     (let fs = current_files self in
      case fetch_loop fetcher (fetchables self) (gotten_of fs) fs of
        (r, fs', ev) \<Rightarrow> (r, self\<lparr>files := Some fs'\<rparr>, ev))"

text \<open>The fetchables the fetch capability was called on, in the order of the calls.\<close>

fun fetched :: "fetch_event list \<Rightarrow> fetchable list" where
  "fetched [] = []"
| "fetched (Fetcher_call x # ev) = x # fetched ev"
| "fetched (Nofetch_call # ev) = fetched ev"

text \<open>Concrete inputs used to exercise the fetch stage.\<close>

definition fetchable_A :: fetchable where
  "fetchable_A = \<lparr>filename = ''a.tar'', uri = [''http://host/a.tar'']\<rparr>"

definition fetchable_B :: fetchable where
  "fetchable_B = \<lparr>filename = ''b.tar'', uri = [''http://host/b.tar'']\<rparr>"

definition fetchable_C :: fetchable where
  "fetchable_C = \<lparr>filename = ''c.tar'', uri = [''http://host/c.tar'']\<rparr>"

definition fetchable_C_mirror :: fetchable where
  "fetchable_C_mirror = \<lparr>filename = ''c.tar'', uri = [''http://mirror/c.tar'']\<rparr>"

definition fetchable_N :: fetchable where
  "fetchable_N = \<lparr>filename = ''n.tar'', uri = []\<rparr>"

definition fetcher_only_C :: "fetchable \<Rightarrow> string option" where
  "fetcher_only_C x = (if filename x = ''c.tar'' then Some ''/distdir/c.tar'' else None)"

definition fetch_op_0 :: fetch_op where
  "fetch_op_0 = \<lparr>files = Some [(''/distdir/b.tar'', fetchable_B)],
                 fetchables = [fetchable_B, fetchable_C, fetchable_C_mirror, fetchable_N,
                               fetchable_A]\<rparr>"

section \<open>The stage graph engine\<close>

text \<open>
  A stage graph is the class attribute \<open>stage_depends\<close>: a dict from a stage name to the
  stage or tuple of stages it depends on, here a list in the declared order.
\<close>

type_synonym stage_graph = "(string \<times> string list) list"

definition prereqs :: "stage_graph \<Rightarrow> string \<Rightarrow> string list" where
  "prereqs g name = (case map_of g name of None \<Rightarrow> [] | Some ds \<Rightarrow> ds)"

text \<open>
  A stage implementation takes the instance and gives back what it returned or raised and
  the instance as it left it.
\<close>

type_synonym 's stage = "'s \<Rightarrow> (exception + pyval) \<times> 's"

text \<open>
  Modelled from the spec: the engine that runs a stage after its prerequisites is the
  metaclass \<open>ForcedDepends\<close> of \<open>snakeoil.dependant_methods\<close>, which the sources at hand
  import and do not contain. Following the specification of the engine: to run a stage,
  its prerequisites that are not in the completed set are run by the same procedure, in
  the declared order; then the stage itself runs unless it is completed already; a stage
  enters the completed set as soon as it returned a true value; a false value or an
  exception ends the run at once with that value or exception. A stage that is reached
  again while it is being resolved (a cycle) and a stage without implementation are
  configuration errors. A run that had nothing left to execute succeeds with \<open>True\<close>.

  The arguments are the graph, the implementations by name, the stages being resolved,
  the stage asked for, and the completed set with the instance. Besides the outcome, the
  completed set and the instance, the result lists the stages that were executed, each
  with the instance as it was when the stage was entered.
\<close>

function run_stage ::
    "stage_graph \<Rightarrow> (string \<Rightarrow> 's stage option) \<Rightarrow> string list \<Rightarrow> string \<Rightarrow> string list \<times> 's \<Rightarrow>
     (exception + pyval) \<times> string list \<times> 's \<times> (string \<times> 's) list"
  and run_prereqs ::
    "stage_graph \<Rightarrow> (string \<Rightarrow> 's stage option) \<Rightarrow> string list \<Rightarrow> string list \<Rightarrow> string list \<times> 's \<Rightarrow>
     (exception + pyval) \<times> string list \<times> 's \<times> (string \<times> 's) list" where
  "run_stage g impl resolving name (completed, s) =
     (if name \<in> set resolving then (Inl (ConfigurationError name), completed, s, [])
      else
        (case run_prereqs g impl (name # resolving) (prereqs g name) (completed, s) of
           (Inl e, completed1, s1, log1) \<Rightarrow> (Inl e, completed1, s1, log1)
         | (Inr v, completed1, s1, log1) \<Rightarrow>
             (if \<not> truthy v then (Inr v, completed1, s1, log1)
              else if name \<in> set completed1 then (Inr (PyBool True), completed1, s1, log1)
              else
                (case impl name of
                   None \<Rightarrow> (Inl (ConfigurationError name), completed1, s1, log1)
                 | Some body \<Rightarrow>
                     (case body s1 of
                        (Inl e, s2) \<Rightarrow> (Inl e, completed1, s2, log1 @ [(name, s1)])
                      | (Inr w, s2) \<Rightarrow>
                          (Inr w, (if truthy w then name # completed1 else completed1), s2,
                           log1 @ [(name, s1)]))))))"
| "run_prereqs g impl resolving [] (completed, s) = (Inr (PyBool True), completed, s, [])"
| "run_prereqs g impl resolving (d # ds) (completed, s) =
     (if d \<in> set completed then run_prereqs g impl resolving ds (completed, s)
      else
        (case run_stage g impl resolving d (completed, s) of
           (Inl e, completed1, s1, log1) \<Rightarrow> (Inl e, completed1, s1, log1)
         | (Inr v, completed1, s1, log1) \<Rightarrow>
             (if \<not> truthy v then (Inr v, completed1, s1, log1)
              else
                (case run_prereqs g impl resolving ds (completed1, s1) of
                   (r, completed2, s2, log2) \<Rightarrow> (r, completed2, s2, log1 @ log2)))))"
  by pat_completeness auto

termination
proof (relation "(\<lambda>x. case x of
            Inl (g, impl, resolving, name, cs) \<Rightarrow> card (set (map fst g) - set resolving)
          | Inr (g, impl, resolving, ds, cs) \<Rightarrow> card (set (map fst g) - set resolving))
        <*mlex*> measure (\<lambda>x. case x of
            Inl (g, impl, resolving, name, cs) \<Rightarrow> 1
          | Inr (g, impl, resolving, ds, cs) \<Rightarrow> 2 * length ds)", goal_cases)
  case 1
  show ?case by (simp add: wf_mlex)
next
  case (2 g impl resolving name completed s)
  show ?case
  proof (cases "name \<in> set (map fst g)")
    case True
    with 2 have "set (map fst g) - set (name # resolving) \<subset> set (map fst g) - set resolving"
      by auto
    then have "card (set (map fst g) - set (name # resolving)) < card (set (map fst g) - set resolving)"
      by (intro psubset_card_mono) auto
    then show ?thesis by (simp add: mlex_iff)
  next
    case False
    then have "prereqs g name = []"
      by (auto simp: prereqs_def split: option.splits dest: map_of_SomeD intro: rev_image_eqI)
    moreover from False have "set (map fst g) - set (name # resolving) = set (map fst g) - set resolving"
      by auto
    ultimately show ?thesis by (simp add: mlex_iff)
  qed
next
  case 3
  then show ?case by (simp add: mlex_iff)
next
  case 4
  then show ?case by (simp add: mlex_iff)
next
  case 5
  then show ?case by (simp add: mlex_iff)
qed

section \<open>Repository mutation operations (operations/repo.py)\<close>

text \<open>
  Modelled from the spec: the lock class of a repository is not part of the sources at
  hand. A lock is a capability with \<open>acquire_write_lock\<close> and \<open>release_write_lock\<close>; of
  its state only whether the write lock is held is kept. \<open>Fake_lock\<close> is the class
  \<open>fake_lock\<close> of the source, whose four methods are its empty \<open>__init__\<close>.
\<close>

datatype lock = Fake_lock | Rw_lock bool

fun acquire_write_lock :: "lock \<Rightarrow> lock" where
  "acquire_write_lock Fake_lock = Fake_lock"
| "acquire_write_lock (Rw_lock held) = Rw_lock True"

fun release_write_lock :: "lock \<Rightarrow> lock" where
  "release_write_lock Fake_lock = Fake_lock"
| "release_write_lock (Rw_lock held) = Rw_lock False"

fun write_held :: "lock \<Rightarrow> bool" where
  "write_held Fake_lock = False"
| "write_held (Rw_lock held) = held"

text \<open>
  A package is opaque; \<open>MutatedPkg(pkg, overrides)\<close> wraps a package with a dict of
  overridden attributes.
\<close>

datatype package = Package string | MutatedPkg package "(string \<times> pyval) list"

text \<open>
  The attributes of a repository the operations read. \<open>repo_lock\<close> is the attribute
  \<open>lock\<close>: \<open>None\<close> when the repository has no such attribute, \<open>Some None\<close> when it is
  Python's \<open>None\<close>. \<open>syncer\<close> is what \<open>getattr(repo, '_syncer', None)\<close> gives, with the
  syncer's \<open>disabled\<close> flag.
\<close>

record repository =
  repo_lock :: "lock option option"
  frozen :: bool
  syncer :: "bool option"

text \<open>The calls an operation makes on its repository.\<close>

datatype repo_event = Notify_add_package package | Notify_remove_package package

text \<open>
  The instance of a repository operation. \<open>new_pkg\<close> and \<open>old_pkg\<close> are \<open>None\<close> while the
  attribute is not set (\<open>install\<close> sets only the first, \<open>uninstall\<close> only the second);
  \<open>op_lock\<close> is \<open>self.lock\<close>, \<open>op_observer\<close> is \<open>self.observer\<close>; \<open>notified\<close> lists the calls
  made on the repository so far; \<open>backend\<close> is whatever a concrete subclass adds.
\<close>

record 'b repo_op =
  repo :: repository
  underway :: bool
  op_observer :: pyval
  op_lock :: lock
  new_pkg :: "package option"
  old_pkg :: "package option"
  notified :: "repo_event list"
  backend :: 'b

text \<open>\<open>base.__init__(self, repo, observer)\<close>\<close>

definition base_init :: "repository \<Rightarrow> pyval \<Rightarrow> 'b \<Rightarrow> exception + 'b repo_op" where
  "base_init r ob b =
     (case repo_lock r of
        None \<Rightarrow> Inl (AttributeError ''lock'')
      | Some l \<Rightarrow>
          Inr \<lparr>repo = r, underway = False, op_observer = ob,
               op_lock = (case l of None \<Rightarrow> Fake_lock | Some k \<Rightarrow> k),
               new_pkg = None, old_pkg = None, notified = [], backend = b\<rparr>)"

definition install_init :: "repository \<Rightarrow> package \<Rightarrow> pyval \<Rightarrow> 'b \<Rightarrow> exception + 'b repo_op" where
  "install_init r p ob b =
     (case base_init r ob b of Inl e \<Rightarrow> Inl e | Inr self \<Rightarrow> Inr (self\<lparr>new_pkg := Some p\<rparr>))"

definition uninstall_init :: "repository \<Rightarrow> package \<Rightarrow> pyval \<Rightarrow> 'b \<Rightarrow> exception + 'b repo_op" where
  "uninstall_init r p ob b =
     (case base_init r ob b of Inl e \<Rightarrow> Inl e | Inr self \<Rightarrow> Inr (self\<lparr>old_pkg := Some p\<rparr>))"

text \<open>
  \<open>replace.__init__\<close> runs \<open>uninstall.__init__\<close> and then \<open>install.__init__\<close> on the same
  instance; the second run of \<open>base.__init__\<close> sets the same attributes again.
\<close>

definition replace_init ::
  "repository \<Rightarrow> package \<Rightarrow> package \<Rightarrow> pyval \<Rightarrow> 'b \<Rightarrow> exception + 'b repo_op" where
  "replace_init r oldpkg newpkg ob b =
     (case uninstall_init r oldpkg ob b of
        Inl e \<Rightarrow> Inl e
      | Inr self \<Rightarrow>
          (case base_init r ob b of
             Inl e \<Rightarrow> Inl e
           | Inr self2 \<Rightarrow> Inr (self2\<lparr>old_pkg := old_pkg self, new_pkg := Some newpkg\<rparr>)))"

text \<open>The stages of \<open>base\<close>, \<open>install\<close> and \<open>uninstall\<close>.\<close>

definition start :: "'b repo_op stage" where
  "start self =
     (Inr (PyBool True), self\<lparr>underway := True, op_lock := acquire_write_lock (op_lock self)\<rparr>)"

definition finish :: "'b repo_op stage" where
  "finish self =
     (Inr (PyBool True), self\<lparr>op_lock := release_write_lock (op_lock self), underway := False\<rparr>)"

definition finalize_data :: "'b repo_op stage" where
  "finalize_data self = (Inl (NotImplementedError ''finalize_data''), self)"

definition add_data :: "'b repo_op stage" where
  "add_data self = (Inl (NotImplementedError ''add_data''), self)"

definition remove_data :: "'b repo_op stage" where
  "remove_data self = (Inl (NotImplementedError ''remove_data''), self)"

definition notify_repo_add :: "'b repo_op stage" where
  "notify_repo_add self =
     (case new_pkg self of
        None \<Rightarrow> (Inl (AttributeError ''new_pkg''), self)
      | Some p \<Rightarrow> (Inr (PyBool True), self\<lparr>notified := notified self @ [Notify_add_package p]\<rparr>))"

definition notify_repo_remove :: "'b repo_op stage" where
  "notify_repo_remove self =
     (case old_pkg self of
        None \<Rightarrow> (Inl (AttributeError ''old_pkg''), self)
      | Some p \<Rightarrow> (Inr (PyBool True), self\<lparr>notified := notified self @ [Notify_remove_package p]\<rparr>))"

text \<open>\<open>install._update_pkg_contents(self, contents)\<close>, the hook a backend calls.\<close>

definition update_pkg_contents :: "pyval \<Rightarrow> 'b repo_op \<Rightarrow> exception + 'b repo_op" where
  "update_pkg_contents contents self =
     (case new_pkg self of
        None \<Rightarrow> Inl (AttributeError ''new_pkg'')
      | Some p \<Rightarrow> Inr (self\<lparr>new_pkg := Some (MutatedPkg p [(''contents'', contents)])\<rparr>))"

text \<open>The three operation classes, their \<open>stage_depends\<close> and their stage methods.\<close>

datatype operation = Install | Uninstall | Replace

fun stage_depends :: "operation \<Rightarrow> stage_graph" where
  "stage_depends Install =
     [(''finish'', [''_notify_repo_add'']),
      (''_notify_repo_add'', [''finalize_data'']),
      (''finalize_data'', [''add_data'']),
      (''add_data'', [''start''])]"
| "stage_depends Uninstall =
     [(''finish'', [''_notify_repo_remove'']),
      (''_notify_repo_remove'', [''finalize_data'']),
      (''finalize_data'', [''remove_data'']),
      (''remove_data'', [''start''])]"
| "stage_depends Replace =
     [(''finish'', [''_notify_repo_add'']),
      (''_notify_repo_add'', [''finalize_data'']),
      (''finalize_data'', [''add_data'', ''_notify_repo_remove'']),
      (''_notify_repo_remove'', [''remove_data'']),
      (''remove_data'', [''start'']),
      (''add_data'', [''start''])]"

text \<open>
  The methods a stage name resolves to on an instance of the class. A concrete backend
  overrides the three abstract stages; its overrides are the record \<open>bk\<close>.
\<close>

record 'b backend_stages =
  bk_add_data :: "'b repo_op stage"
  bk_remove_data :: "'b repo_op stage"
  bk_finalize_data :: "'b repo_op stage"

definition stage_methods :: "operation \<Rightarrow> 'b backend_stages \<Rightarrow> string \<Rightarrow> 'b repo_op stage option" where
  "stage_methods opn bk name =
     (if name = ''start'' then Some start
      else if name = ''finish'' then Some finish
      else if name = ''finalize_data'' then Some (bk_finalize_data bk)
      else if name = ''add_data'' \<and> opn \<noteq> Uninstall then Some (bk_add_data bk)
      else if name = ''_notify_repo_add'' \<and> opn \<noteq> Uninstall then Some notify_repo_add
      else if name = ''remove_data'' \<and> opn \<noteq> Install then Some (bk_remove_data bk)
      else if name = ''_notify_repo_remove'' \<and> opn \<noteq> Install then Some notify_repo_remove
      else None)"

text \<open>The backend that overrides nothing: the abstract stages of the source.\<close>

definition abstract_stages :: "'b backend_stages" where
  "abstract_stages =
     \<lparr>bk_add_data = add_data, bk_remove_data = remove_data, bk_finalize_data = finalize_data\<rparr>"

text \<open>Running a stage of an operation on a fresh completed set or a given one.\<close>

definition run_operation ::
  "operation \<Rightarrow> 'b backend_stages \<Rightarrow> string \<Rightarrow> string list \<times> 'b repo_op \<Rightarrow>
   (exception + pyval) \<times> string list \<times> 'b repo_op \<times> (string \<times> 'b repo_op) list" where
  "run_operation opn bk name cs = run_stage (stage_depends opn) (stage_methods opn bk) [] name cs"

text \<open>A stage outcome lets the run go on when it is a true return value.\<close>

fun succeeded :: "exception + pyval \<Rightarrow> bool" where
  "succeeded (Inl e) = False"
| "succeeded (Inr v) = truthy v"

section \<open>Reading the list of executed stages\<close>

text \<open>
  What a list of executed stages must look like when the run started with the completed
  set \<open>D\<close> and the instance \<open>s\<close> and ended with the instance \<open>s'\<close>: each stage is
  entered in the state its predecessor left, is not yet completed, has an implementation,
  and has all its declared prerequisites completed.
\<close>

fun valid_log ::
  "stage_graph \<Rightarrow> (string \<Rightarrow> 's stage option) \<Rightarrow> string set \<Rightarrow> 's \<Rightarrow> (string \<times> 's) list \<Rightarrow> 's \<Rightarrow> bool" where
  "valid_log g impl D s [] s' = (s' = s)"
| "valid_log g impl D s (e # rest) s' =
     (snd e = s \<and> fst e \<notin> D \<and> set (prereqs g (fst e)) \<subseteq> D \<and>
      (case impl (fst e) of
         None \<Rightarrow> False
       | Some body \<Rightarrow> valid_log g impl (insert (fst e) D) (snd (body s)) rest s'))"

text \<open>The engine's defining equation is unfolded by hand where it is needed.\<close>

declare run_stage.simps [simp del]

text \<open>
  A stage a backend supplies leaves \<open>self.underway\<close> and \<open>self.lock\<close> alone: these belong
  to \<open>start\<close> and \<open>finish\<close> of the base class.
\<close>

definition keeps_lock :: "'b repo_op stage \<Rightarrow> bool" where
  "keeps_lock body = (\<forall>s. underway (snd (body s)) = underway s \<and> op_lock (snd (body s)) = op_lock s)"

definition backend_keeps_lock :: "'b backend_stages \<Rightarrow> bool" where
  "backend_keeps_lock bk =
     (keeps_lock (bk_add_data bk) \<and> keeps_lock (bk_remove_data bk) \<and> keeps_lock (bk_finalize_data bk))"

text \<open>The stages of an operation that notify the repository.\<close>

fun notification_stages :: "operation \<Rightarrow> string list" where
  "notification_stages Install = [''_notify_repo_add'']"
| "notification_stages Uninstall = [''_notify_repo_remove'']"
| "notification_stages Replace = [''_notify_repo_remove'', ''_notify_repo_add'']"

text \<open>A set of stages that contains the prerequisites of each of its members.\<close>

definition prereq_closed :: "stage_graph \<Rightarrow> string set \<Rightarrow> bool" where
  "prereq_closed g D = (\<forall>m \<in> D. set (prereqs g m) \<subseteq> D)"

text \<open>Concrete backends, repositories and instances used to exercise the operations.\<close>

definition plain_backend :: "unit backend_stages" where
  "plain_backend =
     \<lparr>bk_add_data = (\<lambda>s. (Inr (PyBool True), s)),
      bk_remove_data = (\<lambda>s. (Inr (PyBool True), s)),
      bk_finalize_data = (\<lambda>s. (Inr (PyBool True), s))\<rparr>"

definition locked_repo :: repository where
  "locked_repo = \<lparr>repo_lock = Some (Some (Rw_lock False)), frozen = False, syncer = None\<rparr>"

definition install_op_0 :: "unit repo_op" where
  "install_op_0 =
     \<lparr>repo = locked_repo, underway = False, op_observer = PyNone, op_lock = Rw_lock False,
      new_pkg = Some (Package ''dev-util/foo-1.0''), old_pkg = None, notified = [], backend = ()\<rparr>"

definition hook_backend :: "unit backend_stages" where
  "hook_backend =
     \<lparr>bk_add_data = (\<lambda>s. (Inr (PyBool True), s)),
      bk_remove_data = (\<lambda>s. (Inr (PyBool True), s)),
      bk_finalize_data =
        (\<lambda>s. case update_pkg_contents (PyObj ''merged-contents'') s of
               Inl e \<Rightarrow> (Inl e, s)
             | Inr s' \<Rightarrow> (Inr (PyBool True), s'))\<rparr>"

definition unlocked_repo :: repository where
  "unlocked_repo = \<lparr>repo_lock = Some None, frozen = False, syncer = None\<rparr>"

section \<open>The operations registry (operations/repo.py)\<close>

text \<open>
  The names the body of class \<open>operations\<close> defines, in the order of the source. The loop
  variable \<open>x\<close> is deleted at the end of the loop and is no attribute. The attributes
  every Python object has (\<open>__class__\<close>, \<open>__dict__\<close> and so on) are left out; none of them
  begins with \<open>_cmd_\<close>.
\<close>

definition operations_attrs :: "string list" where
  "operations_attrs =
     [''__init__'', ''_filter_disabled_commands'', ''_enable_operation'', ''_disabled_if_frozen'',
      ''_collect_operations'', ''supports'', ''_default_observer'',
      ''_cmd_enabled_install'', ''_cmd_enabled_uninstall'', ''_cmd_enabled_replace'',
      ''_cmd_check_support_install'', ''_cmd_check_support_uninstall'',
      ''_cmd_check_support_replace'',
      ''_cmd_enabled_configure'', ''_cmd_enabled_sync'', ''_cmd_sync'', ''_get_syncer'',
      ''_cmd_check_support_sync'']"

text \<open>
  Class \<open>operations\<close> defines the wrappers \<open>_cmd_enabled_*\<close> and a handler for \<open>sync\<close> only;
  the handlers \<open>_cmd_install\<close>, \<open>_cmd_uninstall\<close>, \<open>_cmd_replace\<close> and \<open>_cmd_configure\<close>
  come from the concrete registry class. A registry class is given by the names \<open>h\<close> for
  which it adds a handler method \<open>_cmd_h\<close>; \<open>[]\<close> is class \<open>operations\<close> itself.
\<close>

definition class_attrs :: "string list \<Rightarrow> string list" where
  "class_attrs handlers = operations_attrs @ map (\<lambda>h. ''_cmd_'' @ h) handlers"

text \<open>\<open>_collect_operations\<close>: the names in \<open>dir(cls)\<close> that start with \<open>_cmd_\<close> and with
  neither \<open>_cmd_enabled_\<close> nor \<open>_cmd_check_support_\<close>, without the \<open>_cmd_\<close>.\<close>

definition collect_operations :: "string list \<Rightarrow> string list" where
  "collect_operations handlers =
     map (drop (length ''_cmd_''))
       (filter (\<lambda>x. prefix ''_cmd_'' x \<and> \<not> prefix ''_cmd_enabled_'' x \<and>
                    \<not> prefix ''_cmd_check_support_'' x)
          (class_attrs handlers))"

text \<open>
  \<open>_disabled_if_frozen\<close> (the debug log line aside) and \<open>_cmd_check_support_sync\<close>.
\<close>

definition disabled_if_frozen :: "repository \<Rightarrow> string \<Rightarrow> bool" where
  "disabled_if_frozen r command = (\<not> frozen r)"

definition cmd_check_support_sync :: "repository \<Rightarrow> bool" where
  "cmd_check_support_sync r = (case syncer r of None \<Rightarrow> False | Some disabled \<Rightarrow> \<not> disabled)"

text \<open>
  \<open>getattr(self, '_cmd_check_support_%s' % command, None)\<close> and its call, if it is not
  \<open>None\<close>. A method the concrete class added under such a name is one of its handlers
  and hides the base class's predicate; a handler takes a package or an observer, so the
  call without arguments raises \<open>TypeError\<close>.
\<close>

definition check_support :: "string list \<Rightarrow> repository \<Rightarrow> string \<Rightarrow> (exception + bool) option" where
  "check_support handlers r command =
     (if ''check_support_'' @ command \<in> set handlers then Some (Inl TypeError)
      else if command \<in> {''install'', ''uninstall'', ''replace''}
        then Some (Inr (disabled_if_frozen r command))
      else if command = ''sync'' then Some (Inr (cmd_check_support_sync r))
      else None)"

fun filter_disabled_commands ::
  "string list \<Rightarrow> repository \<Rightarrow> string list \<Rightarrow> exception + string list" where
  "filter_disabled_commands handlers r [] = Inr []"
| "filter_disabled_commands handlers r (command # sequence) =
     (case check_support handlers r command of
        Some (Inl e) \<Rightarrow> Inl e
      | Some (Inr False) \<Rightarrow> filter_disabled_commands handlers r sequence
      | _ \<Rightarrow>
          (case filter_disabled_commands handlers r sequence of
             Inl e \<Rightarrow> Inl e
           | Inr cs \<Rightarrow> Inr (command # cs)))"

text \<open>
  The registry instance: the repository, the handlers of its class, the names in its
  \<open>__dict__\<close> and \<open>self._enabled_ops\<close>. The set of enabled operations is kept as a list
  without duplicates.
\<close>

record operations =
  ops_repo :: repository
  ops_handlers :: "string list"
  ops_dict :: "string list"
  enabled_ops :: "string list"

text \<open>
  \<open>operations.__init__(self, repository, disable_overrides=(), enable_overrides=())\<close>.
  \<open>_enable_operation\<close> reads \<open>_cmd_enabled_<operation>\<close> and raises \<open>AttributeError\<close>
  when the class has no such attribute; Python visits the set in no fixed order, here
  the first such operation of the list is the one reported.
\<close>

definition operations_init ::
  "string list \<Rightarrow> repository \<Rightarrow> string list \<Rightarrow> string list \<Rightarrow> exception + operations" where
  "operations_init handlers r disable_overrides enable_overrides =
     (case filter_disabled_commands handlers r (collect_operations handlers) of
        Inl e \<Rightarrow> Inl e
      | Inr cs \<Rightarrow>
          (let ops = filter (\<lambda>op. op \<notin> set disable_overrides) (remdups (cs @ enable_overrides)) in
           case find (\<lambda>op. ''_cmd_enabled_'' @ op \<notin> set (class_attrs handlers)) ops of
             Some op \<Rightarrow> Inl (AttributeError (''_cmd_enabled_'' @ op))
           | None \<Rightarrow>
               Inr \<lparr>ops_repo = r, ops_handlers = handlers,
                    ops_dict = ''repo'' # ops @ [''_enabled_ops''], enabled_ops = ops\<rparr>))"

text \<open>\<open>hasattr(self, name)\<close>: an instance attribute or an attribute of the class.\<close>

definition hasattr :: "operations \<Rightarrow> string \<Rightarrow> bool" where
  "hasattr self name = (name \<in> set (ops_dict self) \<or> name \<in> set (class_attrs (ops_handlers self)))"

text \<open>
  \<open>supports(self, operation_name=None, raw=False)\<close> returns a set of names when
  \<open>operation_name\<close> is false (\<open>None\<close> or the empty string) and a boolean otherwise.
\<close>

datatype supports_result = Names "string set" | Flag bool

definition supports :: "operations \<Rightarrow> string option \<Rightarrow> bool \<Rightarrow> supports_result" where
  "supports self operation_name raw =
     (case (case operation_name of None \<Rightarrow> None | Some n \<Rightarrow> (if n = [] then None else Some n)) of
        None \<Rightarrow>
          (if \<not> raw then Names (set (enabled_ops self))
           else Names (set (collect_operations (ops_handlers self))))
      | Some n \<Rightarrow>
          (if raw then Flag (hasattr self (''_cmd_enabled_'' @ n))
           else Flag (hasattr self n)))"

text \<open>
  What calling an enabled wrapper leads to: the call of the underlying handler with its
  arguments. The handlers themselves belong to the concrete class.
\<close>

datatype handler_call = Handler_call string "pyval list"

text \<open>\<open>_default_observer\<close>\<close>

definition default_observer :: "pyval \<Rightarrow> pyval" where
  "default_observer ob = (if ob = PyNone then PyObserver Repo_observer else ob)"

text \<open>
  \<open>_cmd_enabled_configure(self, pkg, observer=None)\<close>, which is
  \<open>self._cmd_configure(self.repository, pkg, self._default_observer(observer))\<close>: Python
  looks up the callee, then evaluates the arguments from left to right, then calls.
  \<open>_cmd_enabled_install\<close> is given for comparison; it passes no repository.
\<close>

definition cmd_enabled_configure :: "operations \<Rightarrow> pyval \<Rightarrow> pyval \<Rightarrow> exception + handler_call" where
  "cmd_enabled_configure self p ob =
     (if \<not> hasattr self ''_cmd_configure'' then Inl (AttributeError ''_cmd_configure'')
      else if \<not> hasattr self ''repository'' then Inl (AttributeError ''repository'')
      else Inr (Handler_call ''_cmd_configure'' [PyObj ''repository'', p, default_observer ob]))"

definition cmd_enabled_install :: "operations \<Rightarrow> pyval \<Rightarrow> pyval \<Rightarrow> exception + handler_call" where
  "cmd_enabled_install self p ob =
     (if \<not> hasattr self ''_cmd_install'' then Inl (AttributeError ''_cmd_install'')
      else Inr (Handler_call ''_cmd_install'' [p, default_observer ob]))"


definition livefs_handlers :: "string list" where
  "livefs_handlers = [''install'', ''uninstall'', ''replace'', ''configure'']"










section \<open>The plain text formatter (util/formatters.py)\<close>

text \<open>
  The classes of the exceptions, for \<open>except\<close> clauses and \<open>isinstance\<close>. \<open>StreamClosed\<close>
  derives from \<open>KeyboardInterrupt\<close> in the source; the rest is Python's own hierarchy.
  \<open>Other_class\<close> stands for the remaining classes, which derive from \<open>StandardError\<close> or
  \<open>Exception\<close>.
\<close>

datatype exception_class =
    BaseException_class | Exception_class | StandardError_class | KeyboardInterrupt_class
  | EnvironmentError_class | IOError_class | StreamClosed_class | Other_class

fun class_of :: "exception \<Rightarrow> exception_class" where
  "class_of (IOError n) = IOError_class"
| "class_of (StreamClosed n) = StreamClosed_class"
| "class_of e = Other_class"

text \<open>The class itself followed by its base classes, nearest first.\<close>

fun mro :: "exception_class \<Rightarrow> exception_class list" where
  "mro StreamClosed_class = [StreamClosed_class, KeyboardInterrupt_class, BaseException_class]"
| "mro KeyboardInterrupt_class = [KeyboardInterrupt_class, BaseException_class]"
| "mro IOError_class =
     [IOError_class, EnvironmentError_class, StandardError_class, Exception_class,
      BaseException_class]"
| "mro EnvironmentError_class =
     [EnvironmentError_class, StandardError_class, Exception_class, BaseException_class]"
| "mro StandardError_class = [StandardError_class, Exception_class, BaseException_class]"
| "mro Exception_class = [Exception_class, BaseException_class]"
| "mro BaseException_class = [BaseException_class]"
| "mro Other_class = [Other_class, Exception_class, BaseException_class]"

definition isinstance :: "exception \<Rightarrow> exception_class \<Rightarrow> bool" where
  "isinstance e c = (c \<in> set (mro (class_of e)))"

text \<open>\<open>errno.EPIPE\<close>\<close>

definition EPIPE :: int where
  "EPIPE = 32"

text \<open>
  The file-like object the formatter writes to: what has been written, and which write
  raises what, given what has been written so far and the data.
\<close>

record stream =
  written :: "string list"
  raises :: "string list \<Rightarrow> string \<Rightarrow> exception option"

definition stream_write :: "stream \<Rightarrow> string \<Rightarrow> exception + stream" where
  "stream_write st data =
     (case raises st (written st) data of
        Some e \<Rightarrow> Inl e
      | None \<Rightarrow> Inr (st\<lparr>written := written st @ [data]\<rparr>))"

text \<open>
  The formatter. Arguments and prefixes are \<open>None\<close>, byte strings, or other objects that
  \<open>str\<close> turns into a byte string; callables and unicode strings are not covered.
\<close>

record formatter =
  stream :: stream
  width :: int
  pos :: int
  in_first_line :: bool
  wrote_something :: bool
  first_prefix :: "pyval list"
  later_prefix :: "pyval list"
  autoline :: bool
  wrap :: bool

fun py_str :: "pyval \<Rightarrow> string" where
  "py_str (PyStr s) = s"
| "py_str PyNone = ''None''"
| "py_str (PyBool b) = (if b then ''True'' else ''False'')"
| "py_str (PyObserver ob) = ''<observer>''"
| "py_str (PyObj n) = n"

definition newline :: string where
  "newline = [CHR 0x0A]"

text \<open>
  Python's slice bounds: a negative bound counts from the end, and both are cut to the
  length. \<open>py_take\<close> is \<open>s[:i]\<close>, \<open>py_drop\<close> is \<open>s[i:]\<close>, \<open>rfind_space\<close> is
  \<open>s.rfind(' ', 0, i)\<close>.
\<close>

definition py_bound :: "string \<Rightarrow> int \<Rightarrow> nat" where
  "py_bound s i = (if i < 0 then nat (max 0 (int (length s) + i)) else min (nat i) (length s))"

definition py_take :: "int \<Rightarrow> string \<Rightarrow> string" where
  "py_take i s = take (py_bound s i) s"

definition py_drop :: "int \<Rightarrow> string \<Rightarrow> string" where
  "py_drop i s = drop (py_bound s i) s"

fun last_space :: "string \<Rightarrow> int" where
  "last_space [] = -1"
| "last_space (c # cs) =
     (let r = last_space cs in
      if r \<noteq> -1 then r + 1 else if c = CHR '' '' then 0 else -1)"

definition rfind_space :: "string \<Rightarrow> int \<Rightarrow> int" where
  "rfind_space s i = last_space (py_take i s)"

text \<open>
  \<open>_write_prefix(self, wrap)\<close>. When a write raises, the exception is the result and the
  formatter is not looked at again.
\<close>

fun write_things :: "pyval list \<Rightarrow> formatter \<Rightarrow> exception + formatter" where
  "write_things [] f = Inr f"
| "write_things (thing # things) f =
     (if thing = PyNone then write_things things f
      else
        (let s = py_str thing; f1 = f\<lparr>pos := pos f + int (length s)\<rparr> in
         case stream_write (stream f1) s of
           Inl e \<Rightarrow> Inl e
         | Inr st \<Rightarrow> write_things things (f1\<lparr>stream := st\<rparr>)))"

definition write_prefix :: "bool \<Rightarrow> formatter \<Rightarrow> exception + formatter" where
  "write_prefix wr f =
     (case write_things (if in_first_line f then first_prefix f else later_prefix f) f of
        Inl e \<Rightarrow> Inl e
      | Inr f1 \<Rightarrow> Inr (if wr \<and> pos f1 \<ge> width f1 then f1\<lparr>pos := width f1 - 10\<rparr> else f1))"

text \<open>
  The loop \<open>while wrap and self._pos + len(arg) > self.width\<close>, entered with \<open>wrap\<close> true.
  It gives back the formatter and the rest of the argument, which fits; \<open>None\<close> is a loop
  that never ends.
\<close>

partial_function (option) wrap_lines ::
  "formatter \<Rightarrow> string \<Rightarrow> (exception + formatter \<times> string) option" where
  "wrap_lines f s =
     (if pos f + int (length s) > width f then
        (let maxlen = width f - pos f;
             space = rfind_space s maxlen;
             bit = (if space = -1
                    then (if in_first_line f \<or> wrote_something f then [] else py_take maxlen s)
                    else py_take space s);
             rest = (if space = -1
                     then (if in_first_line f \<or> wrote_something f then s else py_drop maxlen s)
                     else py_drop (space + 1) s)
         in case stream_write (stream f) bit of
              Inl e \<Rightarrow> Some (Inl e)
            | Inr st1 \<Rightarrow>
                (case stream_write st1 newline of
                   Inl e \<Rightarrow> Some (Inl e)
                 | Inr st2 \<Rightarrow>
                     (case write_prefix True
                             (f\<lparr>stream := st2, pos := 0, in_first_line := False,
                                wrote_something := False\<rparr>) of
                        Inl e \<Rightarrow> Some (Inl e)
                      | Inr f' \<Rightarrow> wrap_lines f' rest)))
      else Some (Inr (f, s)))"

text \<open>The loop is run through its defining equation.\<close>

declare wrap_lines.simps [code]

text \<open>The loop \<open>for arg in args\<close> of \<open>write\<close>.\<close>

fun write_args :: "bool \<Rightarrow> pyval list \<Rightarrow> formatter \<Rightarrow> (exception + formatter) option" where
  "write_args wr [] f = Some (Inr f)"
| "write_args wr (a # as) f =
     (case (if pos f = 0 then write_prefix wr f else Inr f) of
        Inl e \<Rightarrow> Some (Inl e)
      | Inr f1 \<Rightarrow>
          (if a = PyNone then write_args wr as f1
           else
             (case (if wr then wrap_lines f1 (py_str a) else Some (Inr (f1, py_str a))) of
                None \<Rightarrow> None
              | Some (Inl e) \<Rightarrow> Some (Inl e)
              | Some (Inr (f2, s)) \<Rightarrow>
                  (let f3 = f2\<lparr>wrote_something := True, pos := pos f2 + int (length s)\<rparr> in
                   case stream_write (stream f3) s of
                     Inl e \<Rightarrow> Some (Inl e)
                   | Inr st \<Rightarrow> write_args wr as (f3\<lparr>stream := st\<rparr>)))))"

text \<open>The body of the \<open>try\<close> block of \<open>PlainTextFormatter.write\<close>.\<close>

definition write_body :: "bool \<Rightarrow> bool \<Rightarrow> pyval list \<Rightarrow> formatter \<Rightarrow> (exception + formatter) option" where
  "write_body wr al args f =
     (case write_args wr args f of
        None \<Rightarrow> None
      | Some (Inl e) \<Rightarrow> Some (Inl e)
      | Some (Inr f1) \<Rightarrow>
          (if al then
             (case stream_write (stream f1) newline of
                Inl e \<Rightarrow> Some (Inl e)
              | Inr st \<Rightarrow>
                  Some (Inr (f1\<lparr>stream := st, wrote_something := False, pos := 0,
                               in_first_line := True\<rparr>)))
           else Some (Inr f1)))"

text \<open>
  \<open>PlainTextFormatter.write(self, *args, **kwargs)\<close> (\<open>write\<close> alone is taken in
  Isabelle), with the keyword arguments \<open>wrap\<close>
  and \<open>autoline\<close> given or not, and the handler
  \<open>except IOError, e: if e.errno == errno.EPIPE: raise StreamClosed(e); raise\<close>.
\<close>

definition write_text ::
  "formatter \<Rightarrow> pyval list \<Rightarrow> bool option \<Rightarrow> bool option \<Rightarrow> (exception + formatter) option" where
  "write_text f args wrap_kw autoline_kw =
     (let wr = (case wrap_kw of None \<Rightarrow> wrap f | Some w \<Rightarrow> w);
          al = (case autoline_kw of None \<Rightarrow> autoline f | Some a \<Rightarrow> a)
      in case write_body wr al args f of
           Some (Inl (IOError n)) \<Rightarrow>
             (if n = EPIPE then Some (Inl (StreamClosed n)) else Some (Inl (IOError n)))
         | res \<Rightarrow> res)"

text \<open>\<open>PlainTextFormatter.__init__(self, stream, width=79)\<close>\<close>

definition plain_text_formatter :: "stream \<Rightarrow> int \<Rightarrow> formatter" where
  "plain_text_formatter st w =
     \<lparr>stream = st, width = w, pos = 0, in_first_line = True, wrote_something = False,
      first_prefix = [PyStr []], later_prefix = [PyStr []], autoline = True, wrap = False\<rparr>"

text \<open>Streams used to exercise the formatter: one that takes everything, and a closed pipe.\<close>

definition good_stream :: stream where
  "good_stream = \<lparr>written = [], raises = (\<lambda>ws d. None)\<rparr>"

definition closed_pipe :: stream where
  "closed_pipe = \<lparr>written = [], raises = (\<lambda>ws d. Some (IOError EPIPE))\<rparr>"

section \<open>Properties of the fetch stage\<close>


lemma fetch_loop_skip:
  "fetch_loop f xs gotten fs = (r, fs', ev) \<Longrightarrow> filename x \<in> gotten \<Longrightarrow> Fetcher_call x \<notin> set ev"
proof (induction xs arbitrary: gotten fs r fs' ev)
  case Nil
  then show ?case by simp
next
  case (Cons a xs)
  show ?case
  proof (cases "filename a \<in> gotten")
    case True
    with Cons.prems have "fetch_loop f xs gotten fs = (r, fs', ev)" by simp
    from Cons.IH[OF this] Cons.prems show ?thesis by auto
  next
    case False
    note nin = this
    show ?thesis
    proof (cases "f a")
      case None
      with nin Cons.prems show ?thesis by (auto split: if_splits)
    next
      case (Some fp)
      obtain r1 fs1 ev1 where rec: "fetch_loop f xs (insert (filename a) gotten) (AList.update fp a fs) = (r1, fs1, ev1)"
        by (cases "fetch_loop f xs (insert (filename a) gotten) (AList.update fp a fs)") auto
      with Some nin Cons.prems have ev: "ev = Fetcher_call a # ev1" by simp
      from Cons.IH[OF rec] Cons.prems(2) have "Fetcher_call x \<notin> set ev1" by simp
      moreover from nin Cons.prems(2) have "x \<noteq> a" by auto
      ultimately show ?thesis using ev by simp
    qed
  qed
qed

lemma fetch_loop_fail:
  "fetch_loop f xs gotten fs = (r, fs', ev) \<Longrightarrow> Fetcher_call x \<in> set ev \<Longrightarrow> f x = None \<Longrightarrow>
   \<not> r \<and> (Nofetch_call \<in> set ev \<longleftrightarrow> uri x = [])"
proof (induction xs arbitrary: gotten fs r fs' ev)
  case Nil
  then show ?case by simp
next
  case (Cons a xs)
  show ?case
  proof (cases "filename a \<in> gotten")
    case True
    with Cons.prems have "fetch_loop f xs gotten fs = (r, fs', ev)" by simp
    from Cons.IH[OF this] Cons.prems show ?thesis by auto
  next
    case False
    note nin = this
    show ?thesis
    proof (cases "f a")
      case None
      with nin Cons.prems show ?thesis by (auto split: if_splits)
    next
      case (Some fp)
      obtain r1 fs1 ev1 where rec: "fetch_loop f xs (insert (filename a) gotten) (AList.update fp a fs) = (r1, fs1, ev1)"
        by (cases "fetch_loop f xs (insert (filename a) gotten) (AList.update fp a fs)") auto
      with Some nin Cons.prems have ev: "ev = Fetcher_call a # ev1" and r: "r = r1" by simp_all
      from Some Cons.prems(3) have "x \<noteq> a" by auto
      with ev Cons.prems(2) have "Fetcher_call x \<in> set ev1" by simp
      from Cons.IH[OF rec this Cons.prems(3)] ev r show ?thesis by simp
    qed
  qed
qed

lemma fetch_loop_ret:
  "fetch_loop f xs gotten fs = (r, fs', ev) \<Longrightarrow> r = (\<forall>x. Fetcher_call x \<in> set ev \<longrightarrow> f x \<noteq> None)"
proof (induction xs arbitrary: gotten fs r fs' ev)
  case Nil
  then show ?case by auto
next
  case (Cons a xs)
  show ?case
  proof (cases "filename a \<in> gotten")
    case True
    with Cons.prems have "fetch_loop f xs gotten fs = (r, fs', ev)" by simp
    from Cons.IH[OF this] Cons.prems show ?thesis by auto
  next
    case False
    note nin = this
    show ?thesis
    proof (cases "f a")
      case None
      with nin Cons.prems show ?thesis by (auto split: if_splits)
    next
      case (Some fp)
      obtain r1 fs1 ev1 where rec: "fetch_loop f xs (insert (filename a) gotten) (AList.update fp a fs) = (r1, fs1, ev1)"
        by (cases "fetch_loop f xs (insert (filename a) gotten) (AList.update fp a fs)") auto
      with Some nin Cons.prems have ev: "ev = Fetcher_call a # ev1" and r: "r = r1" by simp_all
      from Cons.IH[OF rec] ev r Some show ?thesis by auto
    qed
  qed
qed

lemma fetch_loop_keep:
  "fetch_loop f xs gotten fs = (r, fs', ev) \<Longrightarrow> \<forall>y. Fetcher_call y \<in> set ev \<longrightarrow> f y \<noteq> Some k \<Longrightarrow>
   map_of fs' k = map_of fs k"
proof (induction xs arbitrary: gotten fs r fs' ev)
  case Nil
  then show ?case by auto
next
  case (Cons a xs)
  show ?case
  proof (cases "filename a \<in> gotten")
    case True
    with Cons.prems have "fetch_loop f xs gotten fs = (r, fs', ev)" by simp
    from Cons.IH[OF this] Cons.prems show ?thesis by auto
  next
    case False
    note nin = this
    show ?thesis
    proof (cases "f a")
      case None
      with nin Cons.prems show ?thesis by (auto split: if_splits)
    next
      case (Some fp)
      obtain r1 fs1 ev1 where rec: "fetch_loop f xs (insert (filename a) gotten) (AList.update fp a fs) = (r1, fs1, ev1)"
        by (cases "fetch_loop f xs (insert (filename a) gotten) (AList.update fp a fs)") auto
      with Some nin Cons.prems have ev: "ev = Fetcher_call a # ev1" and fs: "fs' = fs1" by simp_all
      from ev Cons.prems(2) Some have "fp \<noteq> k" by auto
      moreover from ev Cons.prems(2) have "\<forall>y. Fetcher_call y \<in> set ev1 \<longrightarrow> f y \<noteq> Some k" by simp
      from Cons.IH[OF rec this] have "map_of fs1 k = map_of (AList.update fp a fs) k" .
      ultimately show ?thesis using fs by (simp add: update_conv')
    qed
  qed
qed

lemma fetch_loop_recorded:
  "fetch_loop f xs gotten fs = (r, fs', ev) \<Longrightarrow> Fetcher_call x \<in> set ev \<Longrightarrow> f x = Some k \<Longrightarrow>
   \<exists>y. map_of fs' k = Some y \<and> Fetcher_call y \<in> set ev \<and> f y = Some k"
proof (induction xs arbitrary: gotten fs r fs' ev x)
  case Nil
  then show ?case by auto
next
  case (Cons a xs)
  show ?case
  proof (cases "filename a \<in> gotten")
    case True
    with Cons.prems have "fetch_loop f xs gotten fs = (r, fs', ev)" by simp
    from Cons.IH[OF this] Cons.prems show ?thesis by auto
  next
    case False
    note nin = this
    show ?thesis
    proof (cases "f a")
      case None
      with nin Cons.prems show ?thesis by (auto split: if_splits)
    next
      case (Some fp)
      obtain r1 fs1 ev1 where rec: "fetch_loop f xs (insert (filename a) gotten) (AList.update fp a fs) = (r1, fs1, ev1)"
        by (cases "fetch_loop f xs (insert (filename a) gotten) (AList.update fp a fs)") auto
      with Some nin Cons.prems have ev: "ev = Fetcher_call a # ev1" and fs: "fs' = fs1" by simp_all
      show ?thesis
      proof (cases "\<exists>z. Fetcher_call z \<in> set ev1 \<and> f z = Some k")
        case True
        then obtain z where "Fetcher_call z \<in> set ev1" "f z = Some k" by blast
        from Cons.IH[OF rec this] ev fs show ?thesis by auto
      next
        case False
        with ev Cons.prems(2,3) have xa: "x = a" by auto
        with Some Cons.prems(3) have k: "fp = k" by simp
        from False have "\<forall>y. Fetcher_call y \<in> set ev1 \<longrightarrow> f y \<noteq> Some k" by blast
        from fetch_loop_keep[OF rec this] k have "map_of fs1 k = Some a" by (simp add: update_conv')
        with fs ev xa Cons.prems(3) show ?thesis by auto
      qed
    qed
  qed
qed

lemma fetch_loop_satisfied:
  "fetch_loop f xs gotten fs = (r, fs', ev) \<Longrightarrow> r \<Longrightarrow> x \<in> set xs \<Longrightarrow>
   filename x \<in> gotten \<or> (\<exists>y. Fetcher_call y \<in> set ev \<and> f y \<noteq> None \<and> filename y = filename x)"
proof (induction xs arbitrary: gotten fs r fs' ev)
  case Nil
  then show ?case by auto
next
  case (Cons a xs)
  show ?case
  proof (cases "filename a \<in> gotten")
    case True
    with Cons.prems have rec0: "fetch_loop f xs gotten fs = (r, fs', ev)" by simp
    show ?thesis
    proof (cases "x = a")
      case True
      with \<open>filename a \<in> gotten\<close> show ?thesis by simp
    next
      case False
      with Cons.prems(3) have "x \<in> set xs" by simp
      from Cons.IH[OF rec0 Cons.prems(2) this] show ?thesis .
    qed
  next
    case False
    note nin = this
    show ?thesis
    proof (cases "f a")
      case None
      with nin Cons.prems show ?thesis by (auto split: if_splits)
    next
      case (Some fp)
      obtain r1 fs1 ev1 where rec: "fetch_loop f xs (insert (filename a) gotten) (AList.update fp a fs) = (r1, fs1, ev1)"
        by (cases "fetch_loop f xs (insert (filename a) gotten) (AList.update fp a fs)") auto
      with Some nin Cons.prems have ev: "ev = Fetcher_call a # ev1" and r: "r = r1" by simp_all
      show ?thesis
      proof (cases "x = a")
        case True
        with ev Some show ?thesis by auto
      next
        case False
        with Cons.prems(3) have "x \<in> set xs" by simp
        from Cons.IH[OF rec _ this] r Cons.prems(2) ev Some show ?thesis by auto
      qed
    qed
  qed
qed


lemma set_fetched: "set (fetched ev) = {x. Fetcher_call x \<in> set ev}"
  by (induction ev rule: fetched.induct) auto

lemma fetch_loop_once:
  "fetch_loop f xs gotten fs = (r, fs', ev) \<Longrightarrow>
   distinct (map filename (fetched ev)) \<and> (\<forall>x \<in> set (fetched ev). filename x \<notin> gotten) \<and>
   subseq (fetched ev) xs"
proof (induction xs arbitrary: gotten fs r fs' ev)
  case Nil
  then show ?case by simp
next
  case (Cons a xs)
  show ?case
  proof (cases "filename a \<in> gotten")
    case True
    with Cons.prems have "fetch_loop f xs gotten fs = (r, fs', ev)" by simp
    from Cons.IH[OF this] show ?thesis by (auto intro: list_emb_Cons)
  next
    case False
    note nin = this
    show ?thesis
    proof (cases "f a")
      case None
      with nin Cons.prems show ?thesis by (auto split: if_splits)
    next
      case (Some fp)
      obtain r1 fs1 ev1 where rec:
        "fetch_loop f xs (insert (filename a) gotten) (AList.update fp a fs) = (r1, fs1, ev1)"
        by (cases "fetch_loop f xs (insert (filename a) gotten) (AList.update fp a fs)") auto
      with Some nin Cons.prems have ev: "ev = Fetcher_call a # ev1" by simp
      from Cons.IH[OF rec] ev nin show ?thesis by auto
    qed
  qed
qed

lemma fetch_loop_stops:
  "fetch_loop f xs gotten fs = (r, fs', ev) \<Longrightarrow> Fetcher_call x \<in> set ev \<Longrightarrow> f x = None \<Longrightarrow>
   last (fetched ev) = x"
proof (induction xs arbitrary: gotten fs r fs' ev)
  case Nil
  then show ?case by simp
next
  case (Cons a xs)
  show ?case
  proof (cases "filename a \<in> gotten")
    case True
    with Cons.prems have "fetch_loop f xs gotten fs = (r, fs', ev)" by simp
    from Cons.IH[OF this Cons.prems(2,3)] show ?thesis .
  next
    case False
    note nin = this
    show ?thesis
    proof (cases "f a")
      case None
      with nin Cons.prems show ?thesis by (auto split: if_splits)
    next
      case (Some fp)
      obtain r1 fs1 ev1 where rec:
        "fetch_loop f xs (insert (filename a) gotten) (AList.update fp a fs) = (r1, fs1, ev1)"
        by (cases "fetch_loop f xs (insert (filename a) gotten) (AList.update fp a fs)") auto
      with Some nin Cons.prems have ev: "ev = Fetcher_call a # ev1" by simp
      from Some Cons.prems(3) have "x \<noteq> a" by auto
      with ev Cons.prems(2) have in1: "Fetcher_call x \<in> set ev1" by simp
      from Cons.IH[OF rec in1 Cons.prems(3)] have l: "last (fetched ev1) = x" .
      from in1 have "fetched ev1 \<noteq> []" using set_fetched[of ev1] by auto
      with l ev show ?thesis by simp
    qed
  qed
qed

text \<open>
  Claim C2. Let \<open>_raw_fetch\<close> return \<open>r\<close>, leave the instance as \<open>self'\<close> and make the
  calls \<open>ev\<close>. Then: a fetchable whose filename is already among the filenames of the
  fetch record is never passed to the fetch capability, and this holds during the run
  as well: the capability is called on fetchables of the sequence, in their order, and
  never twice for the same filename, so a fetchable whose filename was obtained earlier
  in the run is skipped. When the capability gave no path for a fetchable it was called
  on, that call is the last one, the result is \<open>False\<close>, and the no-fetch hook was
  called exactly when that fetchable has no uri. A path obtained by a successful call is
  a key of the fetch record afterwards, mapped to a fetchable that obtained this very
  path in this run (the fetchable itself unless a later one obtained the same path).
  The result is \<open>True\<close> exactly when no call of the capability came back empty, and then
  every fetchable of the sequence has its filename among those already present or
  obtained.
\<close>

theorem raw_fetch_stage:
  assumes run: "raw_fetch fetcher self = (r, self', ev)"
  shows "(\<forall>x. filename x \<in> gotten_of (current_files self) \<longrightarrow> Fetcher_call x \<notin> set ev)
       \<and> distinct (map filename (fetched ev))
       \<and> subseq (fetched ev) (fetchables self)
       \<and> (\<forall>x. Fetcher_call x \<in> set ev \<and> fetcher x = None \<longrightarrow>
              \<not> r \<and> last (fetched ev) = x \<and>
              (uri x \<noteq> [] \<longrightarrow> Nofetch_call \<notin> set ev) \<and> (uri x = [] \<longrightarrow> Nofetch_call \<in> set ev))
       \<and> (\<forall>x fp. Fetcher_call x \<in> set ev \<and> fetcher x = Some fp \<longrightarrow>
              (\<exists>y. map_of (current_files self') fp = Some y \<and> Fetcher_call y \<in> set ev \<and> fetcher y = Some fp))
       \<and> (r \<longleftrightarrow> (\<forall>x. Fetcher_call x \<in> set ev \<longrightarrow> fetcher x \<noteq> None))
       \<and> (r \<longrightarrow> (\<forall>x \<in> set (fetchables self).
              filename x \<in> gotten_of (current_files self) \<or>
              (\<exists>y. Fetcher_call y \<in> set ev \<and> fetcher y \<noteq> None \<and> filename y = filename x)))"
proof -
  obtain fs' where loop: "fetch_loop fetcher (fetchables self) (gotten_of (current_files self)) (current_files self) = (r, fs', ev)"
    and self': "self' = self\<lparr>files := Some fs'\<rparr>"
    using run by (auto simp: raw_fetch_def Let_def split: prod.splits)
  have cf: "current_files self' = fs'" using self' by (simp add: current_files_def)
  have c1: "\<forall>x. filename x \<in> gotten_of (current_files self) \<longrightarrow> Fetcher_call x \<notin> set ev"
    using fetch_loop_skip[OF loop] by blast
  have c1a: "distinct (map filename (fetched ev))" and c1b: "subseq (fetched ev) (fetchables self)"
    using fetch_loop_once[OF loop] by simp_all
  have c2: "\<forall>x. Fetcher_call x \<in> set ev \<and> fetcher x = None \<longrightarrow>
              \<not> r \<and> last (fetched ev) = x \<and>
              (uri x \<noteq> [] \<longrightarrow> Nofetch_call \<notin> set ev) \<and> (uri x = [] \<longrightarrow> Nofetch_call \<in> set ev)"
    using fetch_loop_fail[OF loop] fetch_loop_stops[OF loop] by blast
  have c3: "\<forall>x fp. Fetcher_call x \<in> set ev \<and> fetcher x = Some fp \<longrightarrow>
              (\<exists>y. map_of (current_files self') fp = Some y \<and> Fetcher_call y \<in> set ev \<and> fetcher y = Some fp)"
    using fetch_loop_recorded[OF loop] cf by blast
  have c4: "r \<longleftrightarrow> (\<forall>x. Fetcher_call x \<in> set ev \<longrightarrow> fetcher x \<noteq> None)"
    using fetch_loop_ret[OF loop] .
  have c5: "r \<longrightarrow> (\<forall>x \<in> set (fetchables self).
              filename x \<in> gotten_of (current_files self) \<or>
              (\<exists>y. Fetcher_call y \<in> set ev \<and> fetcher y \<noteq> None \<and> filename y = filename x))"
    using fetch_loop_satisfied[OF loop] by blast
  from c1 c1a c1b c2 c3 c4 c5 show ?thesis by blast
qed

theorem raw_fetch_stage_witness:
  "raw_fetch fetcher_only_C fetch_op_0 =
     (False,
      fetch_op_0\<lparr>files := Some [(''/distdir/b.tar'', fetchable_B), (''/distdir/c.tar'', fetchable_C)]\<rparr>,
      [Fetcher_call fetchable_C, Fetcher_call fetchable_N, Nofetch_call])
   \<and> filename fetchable_B \<in> gotten_of (current_files fetch_op_0)
   \<and> Fetcher_call fetchable_B \<notin> set [Fetcher_call fetchable_C, Fetcher_call fetchable_N, Nofetch_call]
   \<and> fetchable_C_mirror \<in> set (fetchables fetch_op_0)
   \<and> filename fetchable_C_mirror = filename fetchable_C
   \<and> fetched [Fetcher_call fetchable_C, Fetcher_call fetchable_N, Nofetch_call] =
       [fetchable_C, fetchable_N]
   \<and> distinct (map filename [fetchable_C, fetchable_N])
   \<and> fetcher_only_C fetchable_N = None \<and> uri fetchable_N = []
   \<and> last [fetchable_C, fetchable_N] = fetchable_N
   \<and> Nofetch_call \<in> set [Fetcher_call fetchable_C, Fetcher_call fetchable_N, Nofetch_call]
   \<and> fetcher_only_C fetchable_C = Some ''/distdir/c.tar''
   \<and> map_of (current_files (fetch_op_0\<lparr>files := Some [(''/distdir/b.tar'', fetchable_B),
             (''/distdir/c.tar'', fetchable_C)]\<rparr>)) ''/distdir/c.tar'' = Some fetchable_C"
proof -
  have run: "raw_fetch fetcher_only_C fetch_op_0 =
     (False,
      fetch_op_0\<lparr>files := Some [(''/distdir/b.tar'', fetchable_B), (''/distdir/c.tar'', fetchable_C)]\<rparr>,
      [Fetcher_call fetchable_C, Fetcher_call fetchable_N, Nofetch_call])"
    by (simp add: raw_fetch_def current_files_def gotten_of_def fetch_op_0_def fetcher_only_C_def
        fetchable_A_def fetchable_B_def fetchable_C_def fetchable_C_mirror_def fetchable_N_def)
  have b: "filename fetchable_B \<in> gotten_of (current_files fetch_op_0)"
    by (simp add: current_files_def gotten_of_def fetch_op_0_def)
  have m: "fetchable_C_mirror \<in> set (fetchables fetch_op_0)"
    "filename fetchable_C_mirror = filename fetchable_C"
    by (simp_all add: fetch_op_0_def fetchable_C_mirror_def fetchable_C_def)
  have n: "fetcher_only_C fetchable_N = None" "uri fetchable_N = []"
    by (simp_all add: fetcher_only_C_def fetchable_N_def)
  have c: "fetcher_only_C fetchable_C = Some ''/distdir/c.tar''"
    by (simp add: fetcher_only_C_def fetchable_C_def)
  have cn: "fetchable_C \<noteq> fetchable_N"
    by (simp add: fetchable_C_def fetchable_N_def)
  have e: "map_of (current_files (fetch_op_0\<lparr>files := Some [(''/distdir/b.tar'', fetchable_B),
             (''/distdir/c.tar'', fetchable_C)]\<rparr>)) ''/distdir/c.tar'' = Some fetchable_C"
    by (simp add: current_files_def)
  from raw_fetch_stage[OF run] run b m n c cn e show ?thesis by simp
qed

section \<open>Properties of the constructors and of the observer hook\<close>


lemma bind_positional_error: "bind_positional ps as = Inl e \<Longrightarrow> e = TypeError"
  by (induction ps as rule: bind_positional.induct) (auto split: sum.splits)

lemma bind_keywords_error: "bind_keywords ps env kws = Inl e \<Longrightarrow> e = TypeError"
  by (induction ps env kws rule: bind_keywords.induct) (auto split: if_splits)

lemma bind_defaults_error: "bind_defaults ps env = Inl e \<Longrightarrow> e = TypeError"
  by (induction ps env rule: bind_defaults.induct) (auto split: if_splits option.splits)

lemma bind_args_error: "bind_args ps args kwargs = Inl e \<Longrightarrow> e = TypeError"
  by (auto simp: bind_args_def split: sum.splits
      dest: bind_positional_error bind_keywords_error bind_defaults_error)

lemma build_base_init_one_positional: "build_base_init [v] [] = Inl TypeError"
  by (simp add: build_base_init_def bind_args_def)

text \<open>
  Claim C9. Whatever positional and keyword arguments \<open>empty_build_op\<close> is called with,
  the constructor raises \<open>TypeError\<close>: either its own parameters do not bind, or they do
  and the call \<open>build_base.__init__(self, observer)\<close> passes one argument where
  \<open>domain\<close> and \<open>observer\<close> are both required. No call yields an instance.
\<close>

theorem empty_build_op_init_raises: "empty_build_op_init args kwargs = Inl TypeError"
proof (cases "bind_args [(''pkg'', None), (''observer'', Some PyNone), (''clean'', Some (PyBool False))] args kwargs")
  case (Inl e)
  then have "e = TypeError" by (rule bind_args_error)
  with Inl show ?thesis by (simp add: empty_build_op_init_def)
next
  case (Inr env)
  then show ?thesis by (simp add: empty_build_op_init_def build_base_init_one_positional)
qed

lemma build_base_init_ok:
  "build_base_init [PyObj ''domain'', PyNone] [] = Inr \<lparr>domain = PyObj ''domain'', observer = PyNone\<rparr>"
  by (simp add: build_base_init_def bind_args_def arg_def)


text \<open>
  Claim C1. When the instance's observer is an observer object, and still is one when
  the stage method is done, the hook sends \<open>phase_start(phase)\<close>, then whatever the
  method sent, then \<open>phase_end(phase, status)\<close>, once each and in this order, where
  \<open>status\<close> is the method's return value, or \<open>False\<close> when it raised; the caller gets
  the return value or the exception together with this complete trace, so the
  exception reaches it after \<open>phase_end\<close>. When the observer is \<open>None\<close> the hook is the
  method itself and sends nothing.
\<close>

theorem wrap_build_method_notifies:
  "(observer self = PyObserver ob \<and> method self = (res, self', evs) \<and> observer self' = PyObserver ob' \<longrightarrow>
      wrap_build_method phase method self =
        (res, self', Phase_start phase # evs @
           [Phase_end phase (case res of Inr v \<Rightarrow> v | Inl e \<Rightarrow> PyBool False)]))
   \<and> (observer self = PyNone \<longrightarrow> wrap_build_method phase method self = method self)"
  by (auto simp: wrap_build_method_def split: sum.splits)

theorem wrap_build_method_notifies_witness:
  "observer observed_build = PyObserver File_build_observer
   \<and> failing_stage observed_build = (Inl (Failure ''compile''), observed_build, [])
   \<and> wrap_build_method ''compile'' failing_stage observed_build =
       (Inl (Failure ''compile''), observed_build,
        [Phase_start ''compile'', Phase_end ''compile'' (PyBool False)])"
  using wrap_build_method_notifies[of observed_build File_build_observer failing_stage
      "Inl (Failure ''compile'')" observed_build "[]" File_build_observer "''compile''"]
  by (simp add: observed_build_def failing_stage_def)

section \<open>Properties of the stage graph engine and of the repository operations\<close>

lemma valid_log_append:
  "valid_log g impl D s (l1 @ l2) s' \<longleftrightarrow>
   (\<exists>sm. valid_log g impl D s l1 sm \<and> valid_log g impl (D \<union> fst ` set l1) sm l2 s')"
  by (induction l1 arbitrary: D s) (auto split: option.splits)

lemma run_sound:
  "run_stage g impl resolving name cs = (r, c1, s1, log) \<Longrightarrow>
     valid_log g impl (set (fst cs)) (snd cs) log s1 \<and> set (fst cs) \<subseteq> set c1 \<and>
     (succeeded r \<longrightarrow> set c1 = set (fst cs) \<union> fst ` set log \<and> name \<in> set c1)"
  "run_prereqs g impl resolving ds cs = (r, c1, s1, log) \<Longrightarrow>
     valid_log g impl (set (fst cs)) (snd cs) log s1 \<and> set (fst cs) \<subseteq> set c1 \<and>
     (succeeded r \<longrightarrow> set c1 = set (fst cs) \<union> fst ` set log \<and> set ds \<subseteq> set c1)"
proof (induction g impl resolving name cs and g impl resolving ds cs
    arbitrary: r c1 s1 log and r c1 s1 log rule: run_stage_run_prereqs.induct)
  case (1 g impl resolving name completed s)
  note prem = "1.prems"[unfolded run_stage.simps]
  show ?case
  proof (cases "name \<in> set resolving")
    case True
    with prem show ?thesis by auto
  next
    case False
    obtain rp cp sp lp where rp:
      "run_prereqs g impl (name # resolving) (prereqs g name) (completed, s) = (rp, cp, sp, lp)"
      by (metis prod_cases4)
    from "1.IH"[OF False rp]
    have v: "valid_log g impl (set completed) s lp sp" and sub: "set completed \<subseteq> set cp"
      and ok: "succeeded rp \<Longrightarrow> set cp = set completed \<union> fst ` set lp \<and> set (prereqs g name) \<subseteq> set cp"
      by auto
    show ?thesis
    proof (cases "succeeded rp")
      case nok: False
      with prem False rp v sub show ?thesis
        by (cases rp) (auto split: if_splits)
    next
      case yes: True
      then obtain v0 where rpv: "rp = Inr v0" "truthy v0" by (cases rp) auto
      note ok' = ok[OF yes]
      show ?thesis
      proof (cases "name \<in> set cp")
        case True
        with prem False rp rpv v sub ok' show ?thesis by auto
      next
        case nin: False
        show ?thesis
        proof (cases "impl name")
          case None
          with prem False rp rpv nin v sub show ?thesis by auto
        next
          case (Some body)
          obtain res s2 where b: "body sp = (res, s2)" by (cases "body sp")
          have vl: "valid_log g impl (set completed) s (lp @ [(name, sp)]) s2"
            using v ok' nin Some b by (auto simp: valid_log_append)
          from prem False rp rpv nin Some b
          have "log = lp @ [(name, sp)]" "s1 = s2" "r = res"
            "c1 = (if succeeded res then name # cp else cp)"
            by (cases res; auto)+
          with vl sub ok' show ?thesis by auto
        qed
      qed
    qed
  qed
next
  case (2 g impl resolving completed s)
  then show ?case by auto
next
  case (3 g impl resolving d ds completed s)
  show ?case
  proof (cases "d \<in> set completed")
    case True
    with "3.prems" have "run_prereqs g impl resolving ds (completed, s) = (r, c1, s1, log)" by simp
    from "3.IH"(1)[OF True this] True show ?thesis by auto
  next
    case False
    obtain rd cd sd ld where rd: "run_stage g impl resolving d (completed, s) = (rd, cd, sd, ld)"
      by (metis prod_cases4)
    from "3.IH"(2)[OF False rd]
    have v: "valid_log g impl (set completed) s ld sd" and sub: "set completed \<subseteq> set cd"
      and ok: "succeeded rd \<Longrightarrow> set cd = set completed \<union> fst ` set ld \<and> d \<in> set cd"
      by auto
    show ?thesis
    proof (cases "succeeded rd")
      case nok: False
      with "3.prems" False rd v sub show ?thesis
        by (cases rd) (auto split: if_splits)
    next
      case yes: True
      then obtain v0 where rdv: "rd = Inr v0" "truthy v0" by (cases rd) auto
      note ok' = ok[OF yes]
      obtain r2 c2 s2 l2 where r2: "run_prereqs g impl resolving ds (cd, sd) = (r2, c2, s2, l2)"
        by (metis prod_cases4)
      have "valid_log g impl (set (fst (cd, sd))) (snd (cd, sd)) l2 s2 \<and> set (fst (cd, sd)) \<subseteq> set c2 \<and>
            (succeeded r2 \<longrightarrow> set c2 = set (fst (cd, sd)) \<union> fst ` set l2 \<and> set ds \<subseteq> set c2)"
        using "3.IH"(3)[OF False rd[symmetric] rdv(1) refl refl _ r2] rdv(2) by auto
      then have v2: "valid_log g impl (set cd) sd l2 s2" and sub2: "set cd \<subseteq> set c2"
        and ok2: "succeeded r2 \<Longrightarrow> set c2 = set cd \<union> fst ` set l2 \<and> set ds \<subseteq> set c2"
        by auto
      from "3.prems" False rd rdv r2 have res: "r = r2" "c1 = c2" "s1 = s2" "log = ld @ l2" by auto
      have "valid_log g impl (set completed) s (ld @ l2) s2"
        using v v2 ok' by (auto simp: valid_log_append)
      with res sub sub2 ok' ok2 show ?thesis by auto
    qed
  qed
qed

lemma prereq_closedD: "prereq_closed g D \<Longrightarrow> m \<in> D \<Longrightarrow> set (prereqs g m) \<subseteq> D"
  by (simp add: prereq_closed_def)

lemma prereq_closed_insert:
  "prereq_closed g D \<Longrightarrow> set (prereqs g n) \<subseteq> D \<Longrightarrow> prereq_closed g (insert n D)"
  by (auto simp: prereq_closed_def)

lemma first_stage:
  assumes "stage_methods opn bk n \<noteq> None" "prereqs (stage_depends opn) n = []"
  shows "n = ''start''"
  using assms by (cases opn) (auto simp: stage_methods_def prereqs_def split: if_splits)

lemma all_before_finish:
  assumes cl: "prereq_closed (stage_depends opn) D" and fin: "''finish'' \<in> D"
    and n: "stage_methods opn bk n \<noteq> None"
  shows "n \<in> D"
proof (cases opn)
  case Install
  from prereq_closedD[OF cl fin] Install have a: "''_notify_repo_add'' \<in> D" by (simp add: prereqs_def)
  from prereq_closedD[OF cl a] Install have b: "''finalize_data'' \<in> D" by (simp add: prereqs_def)
  from prereq_closedD[OF cl b] Install have c: "''add_data'' \<in> D" by (simp add: prereqs_def)
  from prereq_closedD[OF cl c] Install have d: "''start'' \<in> D" by (simp add: prereqs_def)
  from n Install fin a b c d show ?thesis by (auto simp: stage_methods_def split: if_splits)
next
  case Uninstall
  from prereq_closedD[OF cl fin] Uninstall have a: "''_notify_repo_remove'' \<in> D" by (simp add: prereqs_def)
  from prereq_closedD[OF cl a] Uninstall have b: "''finalize_data'' \<in> D" by (simp add: prereqs_def)
  from prereq_closedD[OF cl b] Uninstall have c: "''remove_data'' \<in> D" by (simp add: prereqs_def)
  from prereq_closedD[OF cl c] Uninstall have d: "''start'' \<in> D" by (simp add: prereqs_def)
  from n Uninstall fin a b c d show ?thesis by (auto simp: stage_methods_def split: if_splits)
next
  case Replace
  from prereq_closedD[OF cl fin] Replace have a: "''_notify_repo_add'' \<in> D" by (simp add: prereqs_def)
  from prereq_closedD[OF cl a] Replace have b: "''finalize_data'' \<in> D" by (simp add: prereqs_def)
  from prereq_closedD[OF cl b] Replace have c: "''add_data'' \<in> D" "''_notify_repo_remove'' \<in> D"
    by (simp_all add: prereqs_def)
  from prereq_closedD[OF cl c(2)] Replace have e: "''remove_data'' \<in> D" by (simp add: prereqs_def)
  from prereq_closedD[OF cl c(1)] Replace have d: "''start'' \<in> D" by (simp add: prereqs_def)
  from n Replace fin a b c d e show ?thesis by (auto simp: stage_methods_def split: if_splits)
qed

lemma notified_before_finish:
  assumes cl: "prereq_closed (stage_depends opn) D"
    and fin: "set (prereqs (stage_depends opn) ''finish'') \<subseteq> D"
  shows "set (notification_stages opn) \<subseteq> D"
proof (cases opn)
  case Install
  with fin show ?thesis by (simp add: prereqs_def)
next
  case Uninstall
  with fin show ?thesis by (simp add: prereqs_def)
next
  case Replace
  with fin have a: "''_notify_repo_add'' \<in> D" by (simp add: prereqs_def)
  from prereq_closedD[OF cl a] Replace have b: "''finalize_data'' \<in> D" by (simp add: prereqs_def)
  from prereq_closedD[OF cl b] Replace have "''_notify_repo_remove'' \<in> D" by (simp add: prereqs_def)
  with a Replace show ?thesis by simp
qed

lemma start_has_no_prereqs: "prereqs (stage_depends opn) ''start'' = []"
  by (cases opn) (simp_all add: prereqs_def)

lemma stage_keeps_lock:
  assumes "backend_keeps_lock bk" "stage_methods opn bk n = Some body"
    "n \<noteq> ''start''" "n \<noteq> ''finish''"
  shows "underway (snd (body s)) = underway s \<and> op_lock (snd (body s)) = op_lock s"
  using assms
  by (auto simp: stage_methods_def backend_keeps_lock_def keeps_lock_def notify_repo_add_def
      notify_repo_remove_def split: if_splits option.splits)

lemma lock_invariant:
  assumes fr: "backend_keeps_lock bk"
  shows "valid_log (stage_depends opn) (stage_methods opn bk) D s l sm \<Longrightarrow> ''start'' \<in> D \<Longrightarrow>
     prereq_closed (stage_depends opn) D \<Longrightarrow>
     (''finish'' \<notin> D \<longrightarrow> underway s \<and> op_lock s = L) \<Longrightarrow>
     prereq_closed (stage_depends opn) (D \<union> fst ` set l) \<and>
     (''finish'' \<notin> D \<union> fst ` set l \<longrightarrow> underway sm \<and> op_lock sm = L)"
proof (induction l arbitrary: D s)
  case Nil
  then show ?case by simp
next
  case (Cons e l)
  from Cons.prems(1) obtain body where e: "snd e = s" "fst e \<notin> D"
      "set (prereqs (stage_depends opn) (fst e)) \<subseteq> D"
      "stage_methods opn bk (fst e) = Some body"
      and rest: "valid_log (stage_depends opn) (stage_methods opn bk) (insert (fst e) D) (snd (body s)) l sm"
    by (auto split: option.splits)
  have cl: "prereq_closed (stage_depends opn) (insert (fst e) D)"
    using Cons.prems(3) e(3) by (rule prereq_closed_insert)
  have st: "''start'' \<in> insert (fst e) D" using Cons.prems(2) by simp
  have ns: "fst e \<noteq> ''start''" using e(2) Cons.prems(2) by auto
  have inv: "''finish'' \<notin> insert (fst e) D \<longrightarrow> underway (snd (body s)) \<and> op_lock (snd (body s)) = L"
  proof
    assume nf: "''finish'' \<notin> insert (fst e) D"
    then have "fst e \<noteq> ''finish''" "''finish'' \<notin> D" by auto
    with stage_keeps_lock[OF fr e(4) ns] Cons.prems(4)
    show "underway (snd (body s)) \<and> op_lock (snd (body s)) = L" by simp
  qed
  from Cons.IH[OF rest st cl inv] show ?case by simp
qed

lemma run_operation_log:
  assumes run: "run_operation opn bk name ([], s0) = (r, completed, s', log)"
    and dec: "log = pre @ (n, st) # post"
  obtains body where
    "valid_log (stage_depends opn) (stage_methods opn bk) {} s0 pre st"
    "n \<notin> fst ` set pre"
    "set (prereqs (stage_depends opn) n) \<subseteq> fst ` set pre"
    "stage_methods opn bk n = Some body"
    "valid_log (stage_depends opn) (stage_methods opn bk) (insert n (fst ` set pre)) (snd (body st)) post s'"
proof -
  from run_sound(1)[OF run[unfolded run_operation_def]]
  have "valid_log (stage_depends opn) (stage_methods opn bk) {} s0 log s'" by simp
  with dec obtain sm where a: "valid_log (stage_depends opn) (stage_methods opn bk) {} s0 pre sm"
    and b: "valid_log (stage_depends opn) (stage_methods opn bk) (fst ` set pre) sm ((n, st) # post) s'"
    by (auto simp: valid_log_append)
  from b show thesis using a that by (auto split: option.splits)
qed

lemma first_entry:
  assumes "valid_log (stage_depends opn) (stage_methods opn bk) {} s0 (e # l) sm"
  shows "e = (''start'', s0) \<and>
         valid_log (stage_depends opn) (stage_methods opn bk) {''start''} (snd (start s0)) l sm"
proof -
  from assms obtain body where e: "snd e = s0" "prereqs (stage_depends opn) (fst e) = []"
      "stage_methods opn bk (fst e) = Some body"
      and rest: "valid_log (stage_depends opn) (stage_methods opn bk) {fst e} (snd (body s0)) l sm"
    by (auto split: option.splits)
  from first_stage[of opn bk "fst e"] e(2,3) have n: "fst e = ''start''" by simp
  with e(3) have "body = start" by (simp add: stage_methods_def)
  with n e(1) rest show ?thesis by (cases e) auto
qed

text \<open>
  Claim C3. Take an install, uninstall or replace operation whose backend stages leave
  the lock and the underway flag alone, run any stage on a fresh instance \<open>s0\<close>, and
  look at any stage \<open>n\<close> that was executed, entered in state \<open>st\<close> after the stages
  \<open>pre\<close>. Then all declared prerequisites of \<open>n\<close> were executed before it. If \<open>n\<close> is
  \<open>start\<close> it is the very first stage. Otherwise \<open>start\<close> ran before it, and on entry
  \<open>underway\<close> is true and the lock is as \<open>acquire_write_lock\<close> left it, that is, held
  when it is a lock of the repository: this covers the data stages and every other
  stage up to and including the entry of \<open>finish\<close>. If \<open>n\<close> is \<open>finish\<close>, the
  notification stages ran before it, nothing runs after it, and it leaves the instance
  with the write lock released and \<open>underway\<close> false.
\<close>

theorem write_lock_discipline:
  assumes fr: "backend_keeps_lock bk"
    and run: "run_operation opn bk name ([], s0) = (r, completed, s', log)"
    and dec: "log = pre @ (n, st) # post"
  shows "set (prereqs (stage_depends opn) n) \<subseteq> fst ` set pre
       \<and> (n = ''start'' \<longrightarrow> pre = [] \<and> st = s0)
       \<and> (n \<noteq> ''start'' \<longrightarrow>
            ''start'' \<in> fst ` set pre \<and> underway st \<and> op_lock st = acquire_write_lock (op_lock s0) \<and>
            (op_lock s0 \<noteq> Fake_lock \<longrightarrow> write_held (op_lock st)))
       \<and> (n = ''finish'' \<longrightarrow>
            post = [] \<and> set (notification_stages opn) \<subseteq> fst ` set pre \<and>
            s' = st\<lparr>op_lock := release_write_lock (op_lock st), underway := False\<rparr> \<and>
            \<not> underway s' \<and> \<not> write_held (op_lock s'))"
proof -
  let ?g = "stage_depends opn" and ?impl = "stage_methods opn bk"
  from run dec obtain body where
    pre: "valid_log ?g ?impl {} s0 pre st" and nin: "n \<notin> fst ` set pre"
    and pq: "set (prereqs ?g n) \<subseteq> fst ` set pre" and body: "?impl n = Some body"
    and post: "valid_log ?g ?impl (insert n (fst ` set pre)) (snd (body st)) post s'"
    by (rule run_operation_log)
  show ?thesis
  proof (cases pre)
    case Nil
    with pq have "prereqs ?g n = []" by simp
    from first_stage[of opn bk n] this body have "n = ''start''" by simp
    with Nil pre pq show ?thesis by simp
  next
    case (Cons e pre')
    from first_entry[OF pre[unfolded Cons]]
    have e: "e = (''start'', s0)" and rest: "valid_log ?g ?impl {''start''} (snd (start s0)) pre' st"
      by simp_all
    have names: "fst ` set pre = {''start''} \<union> fst ` set pre'" using Cons e by auto
    have cl0: "prereq_closed ?g {''start''}"
      by (simp add: prereq_closed_def start_has_no_prereqs)
    have inv0: "''finish'' \<notin> {''start''} \<longrightarrow>
        underway (snd (start s0)) \<and> op_lock (snd (start s0)) = acquire_write_lock (op_lock s0)"
      by (simp add: start_def)
    from lock_invariant[OF fr rest _ cl0 inv0] names
    have cl: "prereq_closed ?g (fst ` set pre)"
      and inv: "''finish'' \<notin> fst ` set pre \<Longrightarrow>
          underway st \<and> op_lock st = acquire_write_lock (op_lock s0)"
      by simp_all
    have st_in: "''start'' \<in> fst ` set pre" using names by simp
    with nin have ns: "n \<noteq> ''start''" by auto
    have nf: "''finish'' \<notin> fst ` set pre"
    proof
      assume "''finish'' \<in> fst ` set pre"
      from all_before_finish[OF cl this, of bk n] body nin show False by simp
    qed
    have fin: "post = [] \<and> set (notification_stages opn) \<subseteq> fst ` set pre \<and>
            s' = st\<lparr>op_lock := release_write_lock (op_lock st), underway := False\<rparr> \<and>
            \<not> underway s' \<and> \<not> write_held (op_lock s')"
      if n: "n = ''finish''"
    proof -
      have b: "body = finish" using body n by (simp add: stage_methods_def)
      have cl': "prereq_closed ?g (insert n (fst ` set pre))"
        using cl pq by (rule prereq_closed_insert)
      have p: "post = []"
      proof (cases post)
        case Nil
        then show ?thesis .
      next
        case (Cons e2 post')
        with post have "fst e2 \<notin> insert n (fst ` set pre)" "?impl (fst e2) \<noteq> None"
          by (auto split: option.splits)
        moreover from all_before_finish[OF cl', of bk "fst e2"] this(2) n
        have "fst e2 \<in> insert n (fst ` set pre)" by simp
        ultimately show ?thesis by simp
      qed
      with post b have "s' = snd (finish st)" by simp
      then have "s' = st\<lparr>op_lock := release_write_lock (op_lock st), underway := False\<rparr>"
        by (simp add: finish_def)
      moreover from notified_before_finish[OF cl] pq n
      have "set (notification_stages opn) \<subseteq> fst ` set pre" by simp
      moreover have "\<not> write_held (release_write_lock (op_lock st))"
        by (cases "op_lock st") simp_all
      ultimately show ?thesis using p by simp
    qed
    have held: "op_lock s0 \<noteq> Fake_lock \<longrightarrow> write_held (op_lock st)"
      using inv[OF nf] by (cases "op_lock s0") simp_all
    from pq ns st_in inv[OF nf] held fin show ?thesis by blast
  qed
qed

lemma valid_log_closed:
  fixes impl :: "string \<Rightarrow> 's stage option"
  shows "valid_log g impl D s l sm \<Longrightarrow> prereq_closed g D \<Longrightarrow> prereq_closed g (D \<union> fst ` set l)"
proof (induction l arbitrary: D s)
  case Nil
  then show ?case by simp
next
  case (Cons e l)
  from Cons.prems(1) obtain body :: "'s stage" where e: "set (prereqs g (fst e)) \<subseteq> D"
      and rest: "valid_log g impl (insert (fst e) D) (snd (body (snd e))) l sm"
    by (auto split: option.splits)
  from Cons.IH[OF rest prereq_closed_insert[OF Cons.prems(2) e]] show ?case by simp
qed

lemma valid_log_last:
  "valid_log g impl D s (l @ [(m, sf)]) sm \<Longrightarrow>
   \<exists>body. impl m = Some body \<and> sm = snd (body sf) \<and> m \<notin> D \<union> fst ` set l"
  by (auto simp: valid_log_append split: option.splits)

lemma mutated_differs: "MutatedPkg p ov \<noteq> p"
  by (induction p arbitrary: ov) auto

theorem write_lock_discipline_witness:
  "backend_keeps_lock plain_backend
   \<and> run_operation Install plain_backend ''finish'' ([], install_op_0) =
       (Inr (PyBool True),
        [''finish'', ''_notify_repo_add'', ''finalize_data'', ''add_data'', ''start''],
        install_op_0\<lparr>notified := [Notify_add_package (Package ''dev-util/foo-1.0'')]\<rparr>,
        [(''start'', install_op_0),
         (''add_data'', install_op_0\<lparr>underway := True, op_lock := Rw_lock True\<rparr>),
         (''finalize_data'', install_op_0\<lparr>underway := True, op_lock := Rw_lock True\<rparr>),
         (''_notify_repo_add'', install_op_0\<lparr>underway := True, op_lock := Rw_lock True\<rparr>)] @
        (''finish'', install_op_0\<lparr>underway := True, op_lock := Rw_lock True,
            notified := [Notify_add_package (Package ''dev-util/foo-1.0'')]\<rparr>) # [])
   \<and> ''start'' \<in> fst ` set [(''start'', install_op_0),
         (''add_data'', install_op_0\<lparr>underway := True, op_lock := Rw_lock True\<rparr>),
         (''finalize_data'', install_op_0\<lparr>underway := True, op_lock := Rw_lock True\<rparr>),
         (''_notify_repo_add'', install_op_0\<lparr>underway := True, op_lock := Rw_lock True\<rparr>)]
   \<and> set (notification_stages Install) \<subseteq> fst ` set [(''start'', install_op_0),
         (''add_data'', install_op_0\<lparr>underway := True, op_lock := Rw_lock True\<rparr>),
         (''finalize_data'', install_op_0\<lparr>underway := True, op_lock := Rw_lock True\<rparr>),
         (''_notify_repo_add'', install_op_0\<lparr>underway := True, op_lock := Rw_lock True\<rparr>)]
   \<and> op_lock (install_op_0\<lparr>underway := True, op_lock := Rw_lock True,
            notified := [Notify_add_package (Package ''dev-util/foo-1.0'')]\<rparr>)
       = acquire_write_lock (op_lock install_op_0)
   \<and> op_lock install_op_0 \<noteq> Fake_lock
   \<and> \<not> write_held (op_lock (install_op_0\<lparr>notified :=
            [Notify_add_package (Package ''dev-util/foo-1.0'')]\<rparr>))"
proof -
  have fr: "backend_keeps_lock plain_backend"
    by (simp add: backend_keeps_lock_def keeps_lock_def plain_backend_def)
  have run: "run_operation Install plain_backend ''finish'' ([], install_op_0) =
       (Inr (PyBool True),
        [''finish'', ''_notify_repo_add'', ''finalize_data'', ''add_data'', ''start''],
        install_op_0\<lparr>notified := [Notify_add_package (Package ''dev-util/foo-1.0'')]\<rparr>,
        [(''start'', install_op_0),
         (''add_data'', install_op_0\<lparr>underway := True, op_lock := Rw_lock True\<rparr>),
         (''finalize_data'', install_op_0\<lparr>underway := True, op_lock := Rw_lock True\<rparr>),
         (''_notify_repo_add'', install_op_0\<lparr>underway := True, op_lock := Rw_lock True\<rparr>)] @
        (''finish'', install_op_0\<lparr>underway := True, op_lock := Rw_lock True,
            notified := [Notify_add_package (Package ''dev-util/foo-1.0'')]\<rparr>) # [])"
    by (simp add: run_operation_def run_stage.simps prereqs_def stage_methods_def plain_backend_def
        start_def finish_def notify_repo_add_def install_op_0_def)
  have nl: "op_lock install_op_0 \<noteq> Fake_lock" by (simp add: install_op_0_def)
  from write_lock_discipline[OF fr run refl] fr run nl show ?thesis by simp
qed

text \<open>
  Claim C5. In a run of an install operation on a fresh instance, when
  \<open>_notify_repo_add\<close> is executed, the stage executed just before it is
  \<open>finalize_data\<close> and \<open>_notify_repo_add\<close> is entered in the state \<open>finalize_data\<close> left.
  The one call it makes is \<open>notify_add_package\<close> with the \<open>new_pkg\<close> of that state.
  When that \<open>new_pkg\<close> is the one \<open>_update_pkg_contents\<close> stored, it is the
  \<open>MutatedPkg\<close> wrapping the earlier package with the new contents, and it differs from
  the earlier package.
\<close>

theorem install_notifies_finalized_package:
  assumes run: "run_operation Install bk name ([], s0) = (r, completed, s', log)"
    and dec: "log = pre @ (''_notify_repo_add'', st) # post"
  shows "(\<exists>pre' sf. pre = pre' @ [(''finalize_data'', sf)] \<and> st = snd (bk_finalize_data bk sf))
       \<and> (\<forall>pm. new_pkg st = Some pm \<longrightarrow> notified s' = notified st @ [Notify_add_package pm])
       \<and> (\<forall>s1 s2 c p. new_pkg s1 = Some p \<and> update_pkg_contents c s1 = Inr s2 \<and> new_pkg st = new_pkg s2 \<longrightarrow>
              new_pkg st = Some (MutatedPkg p [(''contents'', c)]) \<and> new_pkg st \<noteq> Some p)"
proof -
  let ?g = "stage_depends Install" and ?impl = "stage_methods Install bk"
  let ?n = "''_notify_repo_add''"
  from run dec obtain body where
    pre: "valid_log ?g ?impl {} s0 pre st" and nin: "?n \<notin> fst ` set pre"
    and pq: "set (prereqs ?g ?n) \<subseteq> fst ` set pre" and body: "?impl ?n = Some body"
    and post: "valid_log ?g ?impl (insert ?n (fst ` set pre)) (snd (body st)) post s'"
    by (rule run_operation_log)
  have b: "body = notify_repo_add" using body by (simp add: stage_methods_def)
  have cl: "prereq_closed ?g (fst ` set pre)"
    using valid_log_closed[OF pre] by (simp add: prereq_closed_def)
  from pq have fd: "''finalize_data'' \<in> fst ` set pre" by (simp add: prereqs_def)
  from prereq_closedD[OF cl fd] have ad: "''add_data'' \<in> fst ` set pre" by (simp add: prereqs_def)
  from prereq_closedD[OF cl ad] have sd: "''start'' \<in> fst ` set pre" by (simp add: prereqs_def)
  have c1: "\<exists>pre' sf. pre = pre' @ [(''finalize_data'', sf)] \<and> st = snd (bk_finalize_data bk sf)"
  proof -
    from fd have "pre \<noteq> []" by auto
    then obtain pre' m sf where p: "pre = pre' @ [(m, sf)]"
      by (metis rev_exhaust surj_pair)
    from valid_log_last[OF pre[unfolded p]] obtain bm where
      bm: "?impl m = Some bm" "st = snd (bm sf)" "m \<notin> fst ` set pre'" by auto
    have pre': "valid_log ?g ?impl {} s0 pre' sf"
      using pre[unfolded p] by (auto simp: valid_log_append)
    have cl': "prereq_closed ?g (fst ` set pre')"
      using valid_log_closed[OF pre'] by (simp add: prereq_closed_def)
    have m: "m = ''finalize_data''"
    proof (rule ccontr)
      assume ne: "m \<noteq> ''finalize_data''"
      with fd p have fd': "''finalize_data'' \<in> fst ` set pre'" by auto
      from prereq_closedD[OF cl' fd'] have ad': "''add_data'' \<in> fst ` set pre'" by (simp add: prereqs_def)
      from prereq_closedD[OF cl' ad'] have sd': "''start'' \<in> fst ` set pre'" by (simp add: prereqs_def)
      have "m \<noteq> ?n" using nin p by auto
      moreover have "m \<noteq> ''finish''"
      proof
        assume "m = ''finish''"
        with p have "''finish'' \<in> fst ` set pre" by simp
        from prereq_closedD[OF cl this] nin show False by (simp add: prereqs_def)
      qed
      ultimately show False using bm(1,3) ne fd' ad' sd'
        by (auto simp: stage_methods_def split: if_splits)
    qed
    with bm have "st = snd (bk_finalize_data bk sf)" by (simp add: stage_methods_def)
    with p m show ?thesis by blast
  qed
  have c2: "notified s' = notified st @ [Notify_add_package pm]" if pm: "new_pkg st = Some pm" for pm
  proof -
    have after: "snd (body st) = st\<lparr>notified := notified st @ [Notify_add_package pm]\<rparr>"
      using b pm by (simp add: notify_repo_add_def)
    show ?thesis
    proof (cases post)
      case Nil
      with post after show ?thesis by simp
    next
      case (Cons e2 post')
      with post obtain b2 where e2: "snd e2 = snd (body st)" "fst e2 \<notin> insert ?n (fst ` set pre)"
          "?impl (fst e2) = Some b2"
          and rest: "valid_log ?g ?impl (insert (fst e2) (insert ?n (fst ` set pre))) (snd (b2 (snd (body st)))) post' s'"
        by (auto split: option.splits)
      from e2(2,3) fd ad sd have n2: "fst e2 = ''finish''"
        by (auto simp: stage_methods_def split: if_splits)
      with e2(3) have b2: "b2 = finish" by (simp add: stage_methods_def)
      have cl1: "prereq_closed ?g (insert ?n (fst ` set pre))"
        using cl pq by (rule prereq_closed_insert)
      have "set (prereqs ?g ''finish'') \<subseteq> insert ?n (fst ` set pre)"
        by (simp add: prereqs_def)
      with cl1 have cl2: "prereq_closed ?g (insert ''finish'' (insert ?n (fst ` set pre)))"
        by (rule prereq_closed_insert)
      have "post' = []"
      proof (cases post')
        case Nil
        then show ?thesis .
      next
        case (Cons e3 post'')
        with rest n2 have "fst e3 \<notin> insert ''finish'' (insert ?n (fst ` set pre))" "?impl (fst e3) \<noteq> None"
          by (auto split: option.splits)
        moreover from all_before_finish[OF cl2, of bk "fst e3"] this(2)
        have "fst e3 \<in> insert ''finish'' (insert ?n (fst ` set pre))" by simp
        ultimately show ?thesis by simp
      qed
      with rest b2 have "s' = snd (finish (snd (body st)))" by simp
      with after show ?thesis by (simp add: finish_def)
    qed
  qed
  have c3: "new_pkg st = Some (MutatedPkg p [(''contents'', c)]) \<and> new_pkg st \<noteq> Some p"
    if "new_pkg s1 = Some p" "update_pkg_contents c s1 = Inr s2" "new_pkg st = new_pkg s2" for s1 s2 c p
    using that mutated_differs[of p "[(''contents'', c)]"] by (auto simp: update_pkg_contents_def)
  from c1 c2 c3 show ?thesis by blast
qed

theorem install_notifies_finalized_package_witness:
  "run_operation Install hook_backend ''finish'' ([], install_op_0) =
     (Inr (PyBool True),
      [''finish'', ''_notify_repo_add'', ''finalize_data'', ''add_data'', ''start''],
      install_op_0\<lparr>new_pkg := Some (MutatedPkg (Package ''dev-util/foo-1.0'')
                       [(''contents'', PyObj ''merged-contents'')]),
                    notified := [Notify_add_package (MutatedPkg (Package ''dev-util/foo-1.0'')
                       [(''contents'', PyObj ''merged-contents'')])]\<rparr>,
      [(''start'', install_op_0),
       (''add_data'', install_op_0\<lparr>underway := True, op_lock := Rw_lock True\<rparr>),
       (''finalize_data'', install_op_0\<lparr>underway := True, op_lock := Rw_lock True\<rparr>)] @
      (''_notify_repo_add'', install_op_0\<lparr>underway := True, op_lock := Rw_lock True,
          new_pkg := Some (MutatedPkg (Package ''dev-util/foo-1.0'')
                       [(''contents'', PyObj ''merged-contents'')])\<rparr>) #
      [(''finish'', install_op_0\<lparr>underway := True, op_lock := Rw_lock True,
          new_pkg := Some (MutatedPkg (Package ''dev-util/foo-1.0'')
                       [(''contents'', PyObj ''merged-contents'')]),
          notified := [Notify_add_package (MutatedPkg (Package ''dev-util/foo-1.0'')
                       [(''contents'', PyObj ''merged-contents'')])]\<rparr>)])
   \<and> new_pkg install_op_0 = Some (Package ''dev-util/foo-1.0'')
   \<and> notified (install_op_0\<lparr>new_pkg := Some (MutatedPkg (Package ''dev-util/foo-1.0'')
                       [(''contents'', PyObj ''merged-contents'')]),
                    notified := [Notify_add_package (MutatedPkg (Package ''dev-util/foo-1.0'')
                       [(''contents'', PyObj ''merged-contents'')])]\<rparr>)
       = [Notify_add_package (MutatedPkg (Package ''dev-util/foo-1.0'')
                       [(''contents'', PyObj ''merged-contents'')])]"
proof -
  have run: "run_operation Install hook_backend ''finish'' ([], install_op_0) =
     (Inr (PyBool True),
      [''finish'', ''_notify_repo_add'', ''finalize_data'', ''add_data'', ''start''],
      install_op_0\<lparr>new_pkg := Some (MutatedPkg (Package ''dev-util/foo-1.0'')
                       [(''contents'', PyObj ''merged-contents'')]),
                    notified := [Notify_add_package (MutatedPkg (Package ''dev-util/foo-1.0'')
                       [(''contents'', PyObj ''merged-contents'')])]\<rparr>,
      [(''start'', install_op_0),
       (''add_data'', install_op_0\<lparr>underway := True, op_lock := Rw_lock True\<rparr>),
       (''finalize_data'', install_op_0\<lparr>underway := True, op_lock := Rw_lock True\<rparr>)] @
      (''_notify_repo_add'', install_op_0\<lparr>underway := True, op_lock := Rw_lock True,
          new_pkg := Some (MutatedPkg (Package ''dev-util/foo-1.0'')
                       [(''contents'', PyObj ''merged-contents'')])\<rparr>) #
      [(''finish'', install_op_0\<lparr>underway := True, op_lock := Rw_lock True,
          new_pkg := Some (MutatedPkg (Package ''dev-util/foo-1.0'')
                       [(''contents'', PyObj ''merged-contents'')]),
          notified := [Notify_add_package (MutatedPkg (Package ''dev-util/foo-1.0'')
                       [(''contents'', PyObj ''merged-contents'')])]\<rparr>)])"
    by (simp add: run_operation_def run_stage.simps prereqs_def stage_methods_def hook_backend_def
        start_def finish_def notify_repo_add_def update_pkg_contents_def install_op_0_def)
  have p: "new_pkg install_op_0 = Some (Package ''dev-util/foo-1.0'')"
    by (simp add: install_op_0_def)
  from install_notifies_finalized_package[OF run refl] run p show ?thesis
    by (simp add: install_op_0_def)
qed

text \<open>
  A repository object without any \<open>lock\<close> attribute is another matter: \<open>getattr\<close>
  raises and \<open>base.__init__\<close> lets the \<open>AttributeError\<close> through.
\<close>

lemma base_init_without_lock_attribute:
  "repo_lock r = None \<Longrightarrow> base_init r ob b = Inl (AttributeError ''lock'')"
  by (simp add: base_init_def)

text \<open>
  Claim C7. When the repository's \<open>lock\<close> attribute is \<open>None\<close>, the constructors of
  \<open>base\<close>, \<open>install\<close>, \<open>uninstall\<close> and \<open>replace\<close> succeed and the instance's lock is
  the fake lock. On an instance with the fake lock, \<open>start\<close> only sets \<open>underway\<close> and
  \<open>finish\<close> only clears it: acquiring and releasing change nothing.
\<close>

theorem fake_lock_stands_in:
  fixes b :: 'b
  assumes "repo_lock r = Some None"
  shows "(\<exists>self. base_init r ob b = Inr self \<and> op_lock self = Fake_lock)
       \<and> (\<exists>self. install_init r p ob b = Inr self \<and> op_lock self = Fake_lock)
       \<and> (\<exists>self. uninstall_init r p ob b = Inr self \<and> op_lock self = Fake_lock)
       \<and> (\<exists>self. replace_init r p p' ob b = Inr self \<and> op_lock self = Fake_lock)
       \<and> (\<forall>self :: 'b repo_op. op_lock self = Fake_lock \<longrightarrow>
            start self = (Inr (PyBool True), self\<lparr>underway := True\<rparr>) \<and>
            finish self = (Inr (PyBool True), self\<lparr>underway := False\<rparr>))"
  using assms
  by (auto simp: base_init_def install_init_def uninstall_init_def replace_init_def
      start_def finish_def)

theorem fake_lock_stands_in_witness:
  "repo_lock unlocked_repo = Some None
   \<and> install_init unlocked_repo (Package ''dev-util/foo-1.0'') PyNone () =
       Inr (install_op_0\<lparr>repo := unlocked_repo, op_lock := Fake_lock\<rparr>)
   \<and> start (install_op_0\<lparr>repo := unlocked_repo, op_lock := Fake_lock\<rparr>) =
       (Inr (PyBool True), install_op_0\<lparr>repo := unlocked_repo, op_lock := Fake_lock, underway := True\<rparr>)
   \<and> finish (install_op_0\<lparr>repo := unlocked_repo, op_lock := Fake_lock, underway := True\<rparr>) =
       (Inr (PyBool True), install_op_0\<lparr>repo := unlocked_repo, op_lock := Fake_lock\<rparr>)"
proof -
  have a: "repo_lock unlocked_repo = Some None" by (simp add: unlocked_repo_def)
  from fake_lock_stands_in[OF a, of PyNone "()" "Package ''dev-util/foo-1.0''" "Package ''dev-util/foo-1.0''"]
  show ?thesis using a
    by (auto simp: install_init_def base_init_def install_op_0_def start_def finish_def)
qed

text \<open>
  With the abstract stages of the source left as they are, a run stops in the first of
  them with \<open>NotImplementedError\<close>; \<open>finish\<close> is not reached and the lock stays held.
\<close>

lemma abstract_add_data_raises:
  "run_operation Install abstract_stages ''finish'' ([], install_op_0) =
     (Inl (NotImplementedError ''add_data''), [''start''],
      install_op_0\<lparr>underway := True, op_lock := Rw_lock True\<rparr>,
      [(''start'', install_op_0),
       (''add_data'', install_op_0\<lparr>underway := True, op_lock := Rw_lock True\<rparr>)])"
  by (simp add: run_operation_def run_stage.simps prereqs_def stage_methods_def abstract_stages_def
      start_def add_data_def install_op_0_def)

section \<open>Properties of the operations registry\<close>




lemma operations_init_enabled:
  assumes "operations_init hs r dis en = Inr reg"
  obtains cs where "filter_disabled_commands hs r (collect_operations hs) = Inr cs"
    "set (enabled_ops reg) = (set cs \<union> set en) - set dis"
    "ops_dict reg = ''repo'' # enabled_ops reg @ [''_enabled_ops'']"
    "ops_handlers reg = hs"
    "\<forall>op \<in> set (enabled_ops reg). ''_cmd_enabled_'' @ op \<in> set (class_attrs hs)"
proof -
  from assms obtain cs where cs: "filter_disabled_commands hs r (collect_operations hs) = Inr cs"
    by (auto simp: operations_init_def split: sum.splits)
  let ?ops = "filter (\<lambda>op. op \<notin> set dis) (remdups (cs @ en))"
  from assms cs have f: "find (\<lambda>op. ''_cmd_enabled_'' @ op \<notin> set (class_attrs hs)) ?ops = None"
    and reg: "reg = \<lparr>ops_repo = r, ops_handlers = hs,
                    ops_dict = ''repo'' # ?ops @ [''_enabled_ops''], enabled_ops = ?ops\<rparr>"
    by (auto simp: operations_init_def Let_def split: option.splits)
  from f have "\<forall>op \<in> set ?ops. ''_cmd_enabled_'' @ op \<in> set (class_attrs hs)"
    by (auto simp: find_None_iff)
  with cs reg show thesis by (intro that[of cs]) auto
qed











text \<open>
  Claim C6, which the code does not meet. On the registry of class \<open>operations\<close> itself
  over a repository without syncer: \<open>supports('repo')\<close> is true although the enabled
  set is empty, because \<open>repo\<close> is an attribute of the instance; and
  \<open>supports('configure', raw=True)\<close> is true although the set of structurally defined
  commands is \<open>{sync}\<close>, because the class has the wrapper \<open>_cmd_enabled_configure\<close>
  and no handler \<open>_cmd_configure\<close>.
\<close>

theorem supports_by_attribute_lookup:
  "operations_init [] unlocked_repo [] [] =
     Inr \<lparr>ops_repo = unlocked_repo, ops_handlers = [],
          ops_dict = [''repo'', ''_enabled_ops''], enabled_ops = []\<rparr>
   \<and> supports \<lparr>ops_repo = unlocked_repo, ops_handlers = [],
          ops_dict = [''repo'', ''_enabled_ops''], enabled_ops = []\<rparr> (Some ''repo'') False = Flag True
   \<and> supports \<lparr>ops_repo = unlocked_repo, ops_handlers = [],
          ops_dict = [''repo'', ''_enabled_ops''], enabled_ops = []\<rparr> None False = Names {}
   \<and> supports \<lparr>ops_repo = unlocked_repo, ops_handlers = [],
          ops_dict = [''repo'', ''_enabled_ops''], enabled_ops = []\<rparr> (Some ''configure'') True = Flag True
   \<and> supports \<lparr>ops_repo = unlocked_repo, ops_handlers = [],
          ops_dict = [''repo'', ''_enabled_ops''], enabled_ops = []\<rparr> None True = Names {''sync''}"
  by (simp add: Let_def operations_init_def collect_operations_def class_attrs_def operations_attrs_def
      check_support_def cmd_check_support_sync_def unlocked_repo_def supports_def hasattr_def)

text \<open>
  Claim C10. On a registry that was built, has \<open>configure\<close> enabled and has no enabled
  operation of the name \<open>repository\<close>, there is no attribute \<open>repository\<close>, and calling
  the configure wrapper raises \<open>AttributeError\<close> instead of calling the handler: for the
  missing attribute \<open>repository\<close> whenever the class has the handler \<open>_cmd_configure\<close>
  at all.
\<close>

theorem configure_wrapper_raises:
  assumes init: "operations_init hs r dis en = Inr reg"
    and conf: "''configure'' \<in> set (enabled_ops reg)"
    and norepo: "''repository'' \<notin> set (enabled_ops reg)"
  shows "\<not> hasattr reg ''repository''
       \<and> (\<exists>a. cmd_enabled_configure reg p ob = Inl (AttributeError a))
       \<and> (hasattr reg ''_cmd_configure'' \<longrightarrow>
            cmd_enabled_configure reg p ob = Inl (AttributeError ''repository''))"
proof -
  from init obtain cs where d: "ops_dict reg = ''repo'' # enabled_ops reg @ [''_enabled_ops'']"
    and h: "ops_handlers reg = hs"
    by (auto elim: operations_init_enabled)
  have "''repository'' \<notin> set (class_attrs hs)"
    by (auto simp: class_attrs_def operations_attrs_def)
  with d h norepo have "\<not> hasattr reg ''repository''" by (simp add: hasattr_def)
  then show ?thesis by (simp add: cmd_enabled_configure_def)
qed

theorem configure_wrapper_raises_witness:
  "operations_init livefs_handlers unlocked_repo [] [] =
     Inr \<lparr>ops_repo = unlocked_repo, ops_handlers = livefs_handlers,
          ops_dict = [''repo'', ''install'', ''uninstall'', ''replace'', ''configure'', ''_enabled_ops''],
          enabled_ops = [''install'', ''uninstall'', ''replace'', ''configure'']\<rparr>
   \<and> hasattr \<lparr>ops_repo = unlocked_repo, ops_handlers = livefs_handlers,
          ops_dict = [''repo'', ''install'', ''uninstall'', ''replace'', ''configure'', ''_enabled_ops''],
          enabled_ops = [''install'', ''uninstall'', ''replace'', ''configure'']\<rparr> ''_cmd_configure''
   \<and> cmd_enabled_configure \<lparr>ops_repo = unlocked_repo, ops_handlers = livefs_handlers,
          ops_dict = [''repo'', ''install'', ''uninstall'', ''replace'', ''configure'', ''_enabled_ops''],
          enabled_ops = [''install'', ''uninstall'', ''replace'', ''configure'']\<rparr>
        (PyObj ''dev-util/foo-1.0'') PyNone = Inl (AttributeError ''repository'')
   \<and> cmd_enabled_install \<lparr>ops_repo = unlocked_repo, ops_handlers = livefs_handlers,
          ops_dict = [''repo'', ''install'', ''uninstall'', ''replace'', ''configure'', ''_enabled_ops''],
          enabled_ops = [''install'', ''uninstall'', ''replace'', ''configure'']\<rparr>
        (PyObj ''dev-util/foo-1.0'') PyNone =
       Inr (Handler_call ''_cmd_install'' [PyObj ''dev-util/foo-1.0'', PyObserver Repo_observer])"
proof -
  let ?reg = "\<lparr>ops_repo = unlocked_repo, ops_handlers = livefs_handlers,
          ops_dict = [''repo'', ''install'', ''uninstall'', ''replace'', ''configure'', ''_enabled_ops''],
          enabled_ops = [''install'', ''uninstall'', ''replace'', ''configure'']\<rparr>"
  have i: "operations_init livefs_handlers unlocked_repo [] [] = Inr ?reg"
    by (simp add: Let_def operations_init_def collect_operations_def class_attrs_def operations_attrs_def
        livefs_handlers_def check_support_def disabled_if_frozen_def cmd_check_support_sync_def
        unlocked_repo_def)
  have c: "''configure'' \<in> set (enabled_ops ?reg)" by simp
  have n: "''repository'' \<notin> set (enabled_ops ?reg)" by simp
  have a: "hasattr ?reg ''_cmd_configure''"
    by (simp add: hasattr_def class_attrs_def livefs_handlers_def)
  have inst: "cmd_enabled_install ?reg (PyObj ''dev-util/foo-1.0'') PyNone =
       Inr (Handler_call ''_cmd_install'' [PyObj ''dev-util/foo-1.0'', PyObserver Repo_observer])"
    by (simp add: cmd_enabled_install_def hasattr_def class_attrs_def livefs_handlers_def
        default_observer_def)
  from configure_wrapper_raises[OF i c n, of "PyObj ''dev-util/foo-1.0''" PyNone] i a inst
  show ?thesis by simp
qed

section \<open>Properties of the plain text formatter\<close>

lemma stream_write_Inl: "stream_write st d = Inl e \<Longrightarrow> \<exists>ws d'. raises st ws d' = Some e"
  by (auto simp: stream_write_def split: option.splits)

lemma stream_write_Inr: "stream_write st d = Inr st' \<Longrightarrow> raises st' = raises st"
  by (auto simp: stream_write_def split: option.splits)

lemma write_things_raises:
  "write_things ts f = r \<Longrightarrow>
   (case r of Inl e \<Rightarrow> \<exists>ws d. raises (stream f) ws d = Some e
            | Inr f' \<Rightarrow> raises (stream f') = raises (stream f))"
proof (induction ts arbitrary: f r)
  case Nil
  then show ?case by auto
next
  case (Cons t ts)
  show ?case
  proof (cases "t = PyNone")
    case True
    with Cons.prems have "write_things ts f = r" by simp
    from Cons.IH[OF this] show ?thesis .
  next
    case False
    let ?f1 = "f\<lparr>pos := pos f + int (length (py_str t))\<rparr>"
    show ?thesis
    proof (cases "stream_write (stream ?f1) (py_str t)")
      case (Inl e)
      with False Cons.prems have "r = Inl e" by (simp add: Let_def)
      with stream_write_Inl[OF Inl] show ?thesis by auto
    next
      case (Inr st)
      with False Cons.prems have "write_things ts (?f1\<lparr>stream := st\<rparr>) = r" by (simp add: Let_def)
      from Cons.IH[OF this] stream_write_Inr[OF Inr] show ?thesis by (auto split: sum.splits)
    qed
  qed
qed

lemma write_prefix_raises:
  "write_prefix wr f = r \<Longrightarrow>
   (case r of Inl e \<Rightarrow> \<exists>ws d. raises (stream f) ws d = Some e
            | Inr f' \<Rightarrow> raises (stream f') = raises (stream f))"
  using write_things_raises[OF refl, where ts = "if in_first_line f then first_prefix f else later_prefix f" and f = f]
  by (auto simp: write_prefix_def split: sum.splits)

lemma wrap_lines_raises:
  assumes "wrap_lines f s = Some r"
  shows "case r of Inl e \<Rightarrow> \<exists>ws d. raises (stream f) ws d = Some e
            | Inr (f', s') \<Rightarrow> raises (stream f') = raises (stream f)"
  using assms
proof (induct rule: wrap_lines.raw_induct[rotated 1, consumes 1, case_names step])
  case (step wl f s r)
  show ?case
  proof (cases "pos f + int (length s) > width f")
    case False
    with step(2) show ?thesis by auto
  next
    case True
    let ?maxlen = "width f - pos f"
    let ?space = "rfind_space s ?maxlen"
    let ?bit = "if ?space = -1
                    then (if in_first_line f \<or> wrote_something f then [] else py_take ?maxlen s)
                    else py_take ?space s"
    let ?rest = "if ?space = -1
                     then (if in_first_line f \<or> wrote_something f then s else py_drop ?maxlen s)
                     else py_drop (?space + 1) s"
    from step(2) True have eq: "(case stream_write (stream f) ?bit of
              Inl e \<Rightarrow> Some (Inl e)
            | Inr st1 \<Rightarrow>
                (case stream_write st1 newline of
                   Inl e \<Rightarrow> Some (Inl e)
                 | Inr st2 \<Rightarrow>
                     (case write_prefix True
                             (f\<lparr>stream := st2, pos := 0, in_first_line := False,
                                wrote_something := False\<rparr>) of
                        Inl e \<Rightarrow> Some (Inl e)
                      | Inr f' \<Rightarrow> wl f' ?rest))) = Some r"
      by (simp add: Let_def split del: if_split)
    show ?thesis
    proof (cases "stream_write (stream f) ?bit")
      case (Inl e)
      with eq have "r = Inl e" by simp
      with stream_write_Inl[OF Inl] show ?thesis by simp
    next
      case (Inr st1)
      note r1 = stream_write_Inr[OF Inr]
      show ?thesis
      proof (cases "stream_write st1 newline")
        case (Inl e)
        with eq Inr have "r = Inl e" by simp
        with stream_write_Inl[OF Inl] r1 show ?thesis by simp
      next
        case st2: (Inr st2)
        note r2 = stream_write_Inr[OF st2]
        let ?f2 = "f\<lparr>stream := st2, pos := 0, in_first_line := False, wrote_something := False\<rparr>"
        show ?thesis
        proof (cases "write_prefix True ?f2")
          case (Inl e)
          with eq Inr st2 have "r = Inl e" by simp
          with write_prefix_raises[OF Inl] r1 r2 show ?thesis by simp
        next
          case f': (Inr f')
          with eq Inr st2 have w: "wl f' ?rest = Some r" by simp
          have ih: "case r of Inl e \<Rightarrow> \<exists>ws d. raises (stream f') ws d = Some e
            | Inr (f'', s') \<Rightarrow> raises (stream f'') = raises (stream f')"
            using w by (rule step(1))
          have same: "raises (stream f') = raises (stream f)"
            using write_prefix_raises[OF f'] r1 r2 by simp
          from ih show ?thesis unfolding same .
        qed
      qed
    qed
  qed
qed

lemma write_args_raises:
  "write_args wr as f = Some r \<Longrightarrow>
   (case r of Inl e \<Rightarrow> \<exists>ws d. raises (stream f) ws d = Some e
            | Inr f' \<Rightarrow> raises (stream f') = raises (stream f))"
proof (induction as arbitrary: f r)
  case Nil
  then show ?case by auto
next
  case (Cons a as)
  show ?case
  proof (cases "if pos f = 0 then write_prefix wr f else Inr f")
    case (Inl e)
    with Cons.prems have r: "r = Inl e" by simp
    from Inl have "write_prefix wr f = Inl e" by (simp split: if_splits)
    from write_prefix_raises[OF this] r show ?thesis by simp
  next
    case (Inr f1)
    have s1: "raises (stream f1) = raises (stream f)"
    proof (cases "pos f = 0")
      case True
      with Inr have "write_prefix wr f = Inr f1" by simp
      from write_prefix_raises[OF this] show ?thesis by simp
    next
      case False
      with Inr show ?thesis by simp
    qed
    show ?thesis
    proof (cases "a = PyNone")
      case True
      with Cons.prems Inr have "write_args wr as f1 = Some r" by simp
      from Cons.IH[OF this] show ?thesis unfolding s1 .
    next
      case False
      note notnone = this
      show ?thesis
      proof (cases "if wr then wrap_lines f1 (py_str a) else Some (Inr (f1, py_str a))")
        case None
        with Cons.prems Inr notnone show ?thesis by simp
      next
        case (Some w)
        show ?thesis
        proof (cases w)
          case (Inl e)
          with Some Cons.prems Inr notnone have r: "r = Inl e" by simp
          from Some Inl have "wrap_lines f1 (py_str a) = Some (Inl e)" by (simp split: if_splits)
          from wrap_lines_raises[OF this] r show ?thesis unfolding s1 by simp
        next
          case (Inr p)
          obtain f2 s where p: "p = (f2, s)" by (cases p)
          have s2: "raises (stream f2) = raises (stream f1)"
          proof (cases wr)
            case True
            with Some Inr p have "wrap_lines f1 (py_str a) = Some (Inr (f2, s))" by simp
            from wrap_lines_raises[OF this] show ?thesis by simp
          next
            case False
            with Some Inr p show ?thesis by simp
          qed
          let ?f3 = "f2\<lparr>wrote_something := True, pos := pos f2 + int (length s)\<rparr>"
          show ?thesis
          proof (cases "stream_write (stream ?f3) s")
            case (Inl e)
            with Some \<open>w = Inr p\<close> p Cons.prems \<open>(if pos f = 0 then write_prefix wr f else Inr f) = Inr f1\<close> notnone
            have r: "r = Inl e" by (simp add: Let_def)
            from stream_write_Inl[OF Inl] r s1 s2 show ?thesis by simp
          next
            case st: (Inr st)
            with Some \<open>w = Inr p\<close> p Cons.prems \<open>(if pos f = 0 then write_prefix wr f else Inr f) = Inr f1\<close> notnone
            have "write_args wr as (?f3\<lparr>stream := st\<rparr>) = Some r" by (simp add: Let_def)
            from Cons.IH[OF this] have "case r of
                Inl e \<Rightarrow> \<exists>ws d. raises st ws d = Some e
              | Inr f' \<Rightarrow> raises (stream f') = raises st" by (cases r) simp_all
            moreover have "raises st = raises (stream f)"
              using stream_write_Inr[OF st] s1 s2 by simp
            ultimately show ?thesis by (cases r) simp_all
          qed
        qed
      qed
    qed
  qed
qed

lemma write_body_raises:
  assumes "write_body wr al args f = Some (Inl e)"
  shows "\<exists>ws d. raises (stream f) ws d = Some e"
proof (cases "write_args wr args f")
  case None
  with assms show ?thesis by (simp add: write_body_def)
next
  case (Some r)
  show ?thesis
  proof (cases r)
    case (Inl e')
    with Some assms have "e' = e" by (simp add: write_body_def)
    with write_args_raises[OF Some] Inl show ?thesis by simp
  next
    case (Inr f1)
    with write_args_raises[OF Some] have s1: "raises (stream f1) = raises (stream f)" by simp
    from assms Some Inr have "stream_write (stream f1) newline = Inl e"
      by (auto simp: write_body_def split: if_splits sum.splits)
    from stream_write_Inl[OF this] s1 show ?thesis by simp
  qed
qed

text \<open>
  Claim C8. When the \<open>try\<close> block of \<open>write\<close> raises \<open>IOError\<close> with errno \<open>n\<close>, the
  call raises \<open>StreamClosed\<close> if \<open>n\<close> is \<open>EPIPE\<close> and the same \<open>IOError\<close> otherwise.
  \<open>StreamClosed\<close> is an instance of \<open>KeyboardInterrupt\<close> and not of \<open>IOError\<close>. Seen from
  the stream: every exception of the \<open>try\<close> block is one the stream raised, so on a
  stream whose writes can only fail with a broken pipe, every failure of \<open>write\<close> is
  \<open>StreamClosed\<close>.
\<close>

theorem broken_pipe_raises_stream_closed:
  "(write_body (case wk of None \<Rightarrow> wrap f | Some w \<Rightarrow> w)
       (case ak of None \<Rightarrow> autoline f | Some a \<Rightarrow> a) args f = Some (Inl (IOError n)) \<longrightarrow>
      write_text f args wk ak = Some (Inl (if n = EPIPE then StreamClosed n else IOError n)))
   \<and> isinstance (StreamClosed n) KeyboardInterrupt_class
   \<and> \<not> isinstance (StreamClosed n) IOError_class
   \<and> ((\<forall>ws d e. raises (stream f) ws d = Some e \<longrightarrow> e = IOError EPIPE) \<longrightarrow>
        (\<forall>e. write_text f args wk ak = Some (Inl e) \<longrightarrow> e = StreamClosed EPIPE))"
proof (intro conjI impI allI)
  assume "write_body (case wk of None \<Rightarrow> wrap f | Some w \<Rightarrow> w)
       (case ak of None \<Rightarrow> autoline f | Some a \<Rightarrow> a) args f = Some (Inl (IOError n))"
  then show "write_text f args wk ak = Some (Inl (if n = EPIPE then StreamClosed n else IOError n))"
    by (simp add: write_text_def)
next
  show "isinstance (StreamClosed n) KeyboardInterrupt_class" by (simp add: isinstance_def)
  show "\<not> isinstance (StreamClosed n) IOError_class" by (simp add: isinstance_def)
next
  fix e
  assume only: "\<forall>ws d e. raises (stream f) ws d = Some e \<longrightarrow> e = IOError EPIPE"
    and w: "write_text f args wk ak = Some (Inl e)"
  let ?b = "write_body (case wk of None \<Rightarrow> wrap f | Some w \<Rightarrow> w)
       (case ak of None \<Rightarrow> autoline f | Some a \<Rightarrow> a) args f"
  have b: "\<exists>e'. ?b = Some (Inl e')"
  proof (cases ?b)
    case None
    with w show ?thesis by (simp add: write_text_def)
  next
    case (Some res)
    show ?thesis
    proof (cases res)
      case (Inl e')
      with Some show ?thesis by simp
    next
      case (Inr f')
      with Some w show ?thesis by (simp add: write_text_def)
    qed
  qed
  then obtain e' where b: "?b = Some (Inl e')" by blast
  from write_body_raises[OF b] only have "e' = IOError EPIPE" by blast
  with b w show "e = StreamClosed EPIPE" by (simp add: write_text_def)
qed

theorem broken_pipe_raises_stream_closed_witness:
  "write_body True True [PyStr ''hello big world''] (plain_text_formatter closed_pipe 9) =
     Some (Inl (IOError EPIPE))
   \<and> write_text (plain_text_formatter closed_pipe 9) [PyStr ''hello big world''] (Some True) None =
     Some (Inl (StreamClosed EPIPE))
   \<and> raises (stream (plain_text_formatter closed_pipe 9)) [] [] = Some (IOError EPIPE)"
proof -
  have b: "write_body True True [PyStr ''hello big world''] (plain_text_formatter closed_pipe 9) =
     Some (Inl (IOError EPIPE))"
    by (simp add: write_body_def write_prefix_def stream_write_def plain_text_formatter_def
        closed_pipe_def)
  have r: "raises (stream (plain_text_formatter closed_pipe 9)) [] [] = Some (IOError EPIPE)"
    by (simp add: plain_text_formatter_def closed_pipe_def)
  have al: "autoline (plain_text_formatter closed_pipe 9) = True"
    by (simp add: plain_text_formatter_def)
  from broken_pipe_raises_stream_closed[where wk = "Some True"
      and f = "plain_text_formatter closed_pipe 9" and ak = None
      and args = "[PyStr ''hello big world'']" and n = EPIPE] b al
  have w: "write_text (plain_text_formatter closed_pipe 9) [PyStr ''hello big world''] (Some True) None =
     Some (Inl (StreamClosed EPIPE))"
    by simp
  from b w r show ?thesis by blast
qed

end
